theory Spec2Isabelle
  imports Main
begin

section \<open>Errors\<close>

text \<open>
  The sync task of \<^verbatim>\<open>pkg/controller/controller_sync_task.go\<close> handles four kinds of Go
  error values: API status errors of \<^verbatim>\<open>k8s.io/apimachinery/pkg/api/errors\<close> (told apart
  by their status reason), the two sentinel errors of package \<^verbatim>\<open>context\<close>, plain errors
  made by \<^verbatim>\<open>fmt.Errorf\<close> / \<^verbatim>\<open>errors.Errorf\<close>, and errors wrapped with
  \<^verbatim>\<open>errors.Wrapf\<close> of \<^verbatim>\<open>github.com/pkg/errors\<close>. A nil pointer dereference is a
  run-time panic; it is kept as a value of its own so that the branch is visible.
  Messages are kept short where the source prints whole structures with \<^verbatim>\<open>%v\<close>: no
  general property below depends on the text of a message made by the sync task.
\<close>

datatype statusReason =
  StatusReasonAlreadyExists
| StatusReasonConflict
| StatusReasonNotFound
| StatusReasonUnknown

datatype err =
  StatusError statusReason string
| ContextCanceled
| ContextDeadlineExceeded
| Errorf string
| Wrapf err string
| NilPointerPanic

text \<open>\<^verbatim>\<open>api_errors.IsConflict\<close>, \<^verbatim>\<open>IsAlreadyExists\<close>, \<^verbatim>\<open>IsNotFound\<close>: the reason of a
  status error; any other error value has no reason.\<close>

fun IsConflict :: "err \<Rightarrow> bool" where
  "IsConflict (StatusError r m) = (r = StatusReasonConflict)"
| "IsConflict e = False"

fun IsAlreadyExists :: "err \<Rightarrow> bool" where
  "IsAlreadyExists (StatusError r m) = (r = StatusReasonAlreadyExists)"
| "IsAlreadyExists e = False"

fun IsNotFound :: "err \<Rightarrow> bool" where
  "IsNotFound (StatusError r m) = (r = StatusReasonNotFound)"
| "IsNotFound e = False"

text \<open>\<^verbatim>\<open>errors.Cause\<close>: strips the wrappers.\<close>

fun Cause :: "err \<Rightarrow> err" where
  "Cause (Wrapf e m) = Cause e"
| "Cause e = e"

text \<open>\<^verbatim>\<open>err.Error()\<close>: the text of an error; a wrapper prefixes its message.\<close>

fun Error :: "err \<Rightarrow> string" where
  "Error (StatusError r m) = m"
| "Error ContextCanceled = ''context canceled''"
| "Error ContextDeadlineExceeded = ''context deadline exceeded''"
| "Error (Errorf m) = m"
| "Error (Wrapf e m) = m @ '': '' @ Error e"
| "Error NilPointerPanic = ''runtime error: invalid memory address or nil pointer dereference''"

section \<open>Data model\<close>

record groupVersionKind =
  Group :: string
  Version :: string
  Kind :: string

record ownerReference =
  ref_APIVersion :: string
  ref_Kind :: string
  ref_Name :: string
  ref_UID :: string
  ref_Controller :: "bool option"
  ref_BlockOwnerDeletion :: "bool option"

text \<open>An \<^verbatim>\<open>unstructured.Unstructured\<close> object: the metadata the sync task reads and
  writes, and the rest of the payload as an opaque content.\<close>

record unstructured =
  obj_GroupVersionKind :: groupVersionKind
  obj_Name :: string
  obj_UID :: string
  obj_Labels :: "(string \<times> string) list"
  obj_OwnerReferences :: "ownerReference list"
  obj_DeletionTimestamp :: "string option"
  obj_Content :: string

text \<open>\<^verbatim>\<open>GetAPIVersion\<close>: group and version joined, the version alone for the core group.\<close>

definition GetAPIVersion :: "unstructured \<Rightarrow> string" where
  "GetAPIVersion obj =
     (let gvk = obj_GroupVersionKind obj
      in if Group gvk = [] then Version gvk else Group gvk @ ''/'' @ Version gvk)"

definition GetKind :: "unstructured \<Rightarrow> string" where
  "GetKind obj = Kind (obj_GroupVersionKind obj)"

record resource =
  res_Name :: string
  res_DependsOn :: "string list"
  res_Spec :: unstructured

datatype bundleConditionType = BundleInProgress | BundleReady | BundleError

datatype conditionStatus = ConditionTrue | ConditionFalse | ConditionUnknown

record bundleCondition =
  cond_Type :: bundleConditionType
  cond_Status :: conditionStatus
  cond_Reason :: string
  cond_Message :: string

record Bundle =
  bundle_Namespace :: string
  bundle_Name :: string
  bundle_UID :: string
  bundle_Labels :: "(string \<times> string) list"
  bundle_Resources :: "resource list"
  bundle_Conditions :: "bundleCondition list"

text \<open>
  Modelled from the spec: the constants of packages \<^verbatim>\<open>smith\<close> and \<^verbatim>\<open>smith_v1\<close> are
  declared outside the sync task's file. The spec names the label \<^verbatim>\<open>bundleName\<close> and the
  reasons \<^verbatim>\<open>RetriableError\<close> and \<^verbatim>\<open>TerminalError\<close>; the API version and the kind are
  those of the Bundle resource. No general property below depends on the strings chosen.
\<close>

definition BundleNameLabel :: string where
  "BundleNameLabel = ''bundleName''"

text \<open>Modelled from the spec: the API version of the Bundle resource, declared in package
  \<^verbatim>\<open>smith_v1\<close>; the spec does not give the string, and the one below stands for it.\<close>

definition BundleResourceGroupVersion :: string where
  "BundleResourceGroupVersion = ''smith.atlassian.com/v1''"

text \<open>Modelled from the spec: the kind of the Bundle resource, declared in package
  \<^verbatim>\<open>smith_v1\<close>.\<close>

definition BundleResourceKind :: string where
  "BundleResourceKind = ''Bundle''"

text \<open>Modelled from the spec: the reason \<^verbatim>\<open>RetriableError\<close> of the table of conditions,
  declared in package \<^verbatim>\<open>smith_v1\<close>.\<close>

definition BundleReasonRetriableError :: string where
  "BundleReasonRetriableError = ''RetriableError''"

text \<open>Modelled from the spec: the reason \<^verbatim>\<open>TerminalError\<close> of the table of conditions,
  declared in package \<^verbatim>\<open>smith_v1\<close>.\<close>

definition BundleReasonTerminalError :: string where
  "BundleReasonTerminalError = ''TerminalError''"

text \<open>\<^verbatim>\<open>meta_v1.IsControlledBy\<close>: the first owner reference with \<^verbatim>\<open>Controller\<close> set and
  true is the controller; the object is controlled by the owner when the UIDs agree.\<close>

fun GetControllerOf :: "ownerReference list \<Rightarrow> ownerReference option" where
  "GetControllerOf [] = None"
| "GetControllerOf (r # rs) =
     (if ref_Controller r = Some True then Some r else GetControllerOf rs)"

definition IsControlledBy :: "unstructured \<Rightarrow> Bundle \<Rightarrow> bool" where
  "IsControlledBy obj b =
     (case GetControllerOf (obj_OwnerReferences obj) of
        None \<Rightarrow> False
      | Some r \<Rightarrow> ref_UID r = bundle_UID b)"

subsection \<open>Conditions of the Bundle\<close>

text \<open>
  Modelled from the spec: \<^verbatim>\<open>Bundle.UpdateCondition\<close> (package \<^verbatim>\<open>smith_v1\<close>) is not in
  the sync task's file. The spec: a condition is a tuple (type, status, reason, message);
  conditions are updated in place by type; \<^verbatim>\<open>UpdateCondition\<close> returns whether the
  effective value changed. A condition of a type the Bundle does not have yet is added,
  which changes the effective value.
\<close>

fun GetCondition :: "bundleCondition list \<Rightarrow> bundleConditionType \<Rightarrow> bundleCondition option" where
  "GetCondition [] t = None"
| "GetCondition (c # cs) t = (if cond_Type c = t then Some c else GetCondition cs t)"

text \<open>Modelled from the spec: the update in place by type; a condition of a new type is
  added at the end.\<close>

fun replaceCondition :: "bundleCondition list \<Rightarrow> bundleCondition \<Rightarrow> bundleCondition list" where
  "replaceCondition [] c = [c]"
| "replaceCondition (d # ds) c =
     (if cond_Type d = cond_Type c then c # ds else d # replaceCondition ds c)"

text \<open>Modelled from the spec: \<^verbatim>\<open>UpdateCondition\<close> stores the condition and returns whether
  the effective value (status, reason, message) of its type changed.\<close>

definition UpdateCondition :: "Bundle \<Rightarrow> bundleCondition \<Rightarrow> bool \<times> Bundle" where
  "UpdateCondition b c =
     (GetCondition (bundle_Conditions b) (cond_Type c) \<noteq> Some c,
      b\<lparr>bundle_Conditions := replaceCondition (bundle_Conditions b) c\<rparr>)"

section \<open>Collaborators\<close>

text \<open>
  Every call the sync task makes to a collaborator (smart client, resource client, store,
  ready checker, Bundle client) is recorded as an event. The answer of a collaborator may
  depend on all the calls made before it, so each of them takes the events so far.
\<close>

datatype propagationPolicy =
  DeletePropagationForeground | DeletePropagationBackground | DeletePropagationOrphan

record deleteOptions =
  Preconditions_UID :: "string option"
  PropagationPolicy :: "propagationPolicy option"

datatype event =
  EvForGVK groupVersionKind string
| EvGet groupVersionKind string string
| EvGetObjectsForBundle string string
| EvCreate groupVersionKind string unstructured
| EvUpdate groupVersionKind string unstructured
| EvDelete groupVersionKind string string deleteOptions
| EvIsReady unstructured
| EvBundlesUpdate Bundle

type_synonym objectRef = "groupVersionKind \<times> string"

record collaborators =
  ForGVK :: "event list \<Rightarrow> groupVersionKind \<Rightarrow> string \<Rightarrow> err option"
  Get :: "event list \<Rightarrow> groupVersionKind \<Rightarrow> string \<Rightarrow> string \<Rightarrow> err + unstructured option"
  GetObjectsForBundle :: "event list \<Rightarrow> string \<Rightarrow> string \<Rightarrow> err + unstructured list"
  Create :: "event list \<Rightarrow> groupVersionKind \<Rightarrow> string \<Rightarrow> unstructured \<Rightarrow> err + unstructured"
  Update :: "event list \<Rightarrow> groupVersionKind \<Rightarrow> string \<Rightarrow> unstructured \<Rightarrow> err + unstructured"
  Delete :: "event list \<Rightarrow> groupVersionKind \<Rightarrow> string \<Rightarrow> string \<Rightarrow> deleteOptions \<Rightarrow> err option"
  IsReady :: "event list \<Rightarrow> unstructured \<Rightarrow> bool \<times> bool \<times> err option"
  CompareActualVsSpec :: "unstructured \<Rightarrow> unstructured \<Rightarrow> err + (unstructured \<times> bool)"
  ToUnstructured :: "resource \<Rightarrow> err + unstructured"
  ProcessObject :: "string \<Rightarrow> (string \<rightharpoonup> unstructured) \<Rightarrow> string list \<Rightarrow> unstructured
                     \<Rightarrow> err + unstructured"
  BundlesUpdate :: "event list \<Rightarrow> Bundle \<Rightarrow> err option"
  mapRange :: "(objectRef \<times> string) list \<Rightarrow> (objectRef \<times> string) list"

text \<open>The sync task: the Bundle, the ready set, and the calls made so far.\<close>

record syncTask =
  st_bundle :: Bundle
  readyResources :: "string \<rightharpoonup> unstructured"
  calls :: "event list"

section \<open>Status folding\<close>

text \<open>\<^verbatim>\<open>setBundleStatus\<close>: a conflict of the write is dropped, any other error is
  reported in a new error value.\<close>

definition setBundleStatus :: "collaborators \<Rightarrow> syncTask \<Rightarrow> err option \<times> syncTask" where
  "setBundleStatus env st =
     (let st' = st\<lparr>calls := calls st @ [EvBundlesUpdate (st_bundle st)]\<rparr>
      in case BundlesUpdate env (calls st) (st_bundle st) of
           Some e \<Rightarrow>
             if IsConflict e then (None, st')
             else (Some (Errorf (''failed to set bundle '' @ bundle_Namespace (st_bundle st)
                       @ ''/'' @ bundle_Name (st_bundle st) @ '' status: '' @ Error e)), st')
         | None \<Rightarrow> (None, st'))"

fun isBundleReadyLoop :: "(string \<rightharpoonup> unstructured) \<Rightarrow> resource list \<Rightarrow> bool" where
  "isBundleReadyLoop ready [] = True"
| "isBundleReadyLoop ready (res # rest) =
     (if ready (res_Name res) = None then False else isBundleReadyLoop ready rest)"

definition isBundleReady :: "syncTask \<Rightarrow> bool" where
  "isBundleReady st = isBundleReadyLoop (readyResources st) (bundle_Resources (st_bundle st))"

text \<open>The three conditions \<^verbatim>\<open>handleProcessResult\<close> computes before it stores them.\<close>

definition foldedConditions ::
  "syncTask \<Rightarrow> bool \<Rightarrow> err option \<Rightarrow> bundleCondition \<times> bundleCondition \<times> bundleCondition" where
  "foldedConditions st retriable processErr =
     (let inProgressCond = \<lparr>cond_Type = BundleInProgress, cond_Status = ConditionFalse,
                             cond_Reason = [], cond_Message = []\<rparr>;
          readyCond = \<lparr>cond_Type = BundleReady, cond_Status = ConditionFalse,
                        cond_Reason = [], cond_Message = []\<rparr>;
          errorCond = \<lparr>cond_Type = BundleError, cond_Status = ConditionFalse,
                        cond_Reason = [], cond_Message = []\<rparr>
      in case processErr of
           None \<Rightarrow>
             if isBundleReady st
             then (inProgressCond, readyCond\<lparr>cond_Status := ConditionTrue\<rparr>, errorCond)
             else (inProgressCond\<lparr>cond_Status := ConditionTrue\<rparr>, readyCond, errorCond)
         | Some e \<Rightarrow>
             let errorCond = errorCond\<lparr>cond_Status := ConditionTrue, cond_Message := Error e\<rparr>
             in if retriable
                then (inProgressCond\<lparr>cond_Status := ConditionTrue\<rparr>, readyCond,
                      errorCond\<lparr>cond_Reason := BundleReasonRetriableError\<rparr>)
                else (inProgressCond, readyCond,
                      errorCond\<lparr>cond_Reason := BundleReasonTerminalError\<rparr>))"

definition handleProcessResult ::
  "collaborators \<Rightarrow> syncTask \<Rightarrow> bool \<Rightarrow> err option \<Rightarrow> (bool \<times> err option) \<times> syncTask" where
  "handleProcessResult env st retriable processErr =
     (if processErr \<noteq> None \<and> IsConflict (Cause (the processErr)) then ((retriable, processErr), st)
      else if processErr = Some ContextCanceled \<or> processErr = Some ContextDeadlineExceeded
      then ((False, processErr), st)
      else
        let (inProgressCond, readyCond, errorCond) = foldedConditions st retriable processErr;
            (inProgressUpdated, b1) = UpdateCondition (st_bundle st) inProgressCond;
            (readyUpdated, b2) = UpdateCondition b1 readyCond;
            (errorUpdated, b3) = UpdateCondition b2 errorCond;
            st3 = st\<lparr>st_bundle := b3\<rparr>
        in if inProgressUpdated \<or> readyUpdated \<or> errorUpdated
           then
             let (ex, st4) = setBundleStatus env st3
             in if processErr = None then ((True, ex), st4) else ((retriable, processErr), st4)
           else ((retriable, processErr), st3))"

section \<open>Evaluating the specification of a resource\<close>

fun setLabel :: "string \<Rightarrow> string \<Rightarrow> (string \<times> string) list \<Rightarrow> (string \<times> string) list" where
  "setLabel k v [] = [(k, v)]"
| "setLabel k v (p # ps) = (if fst p = k then (k, v) # ps else p # setLabel k v ps)"

definition mergeLabels :: "(string \<times> string) list list \<Rightarrow> (string \<times> string) list" where
  "mergeLabels labels = fold (\<lambda>m result. fold (\<lambda>(k, v). setLabel k v) m result) labels []"

text \<open>The first loop of step 3 of \<^verbatim>\<open>evalSpec\<close>: an owner reference whose
  \<^verbatim>\<open>Controller\<close> is set and true ends the evaluation with an error; every other one gets
  \<^verbatim>\<open>BlockOwnerDeletion\<close>.\<close>

fun blockOwnerDeletionLoop :: "string \<Rightarrow> ownerReference list \<Rightarrow> err + ownerReference list" where
  "blockOwnerDeletionLoop n [] = Inr []"
| "blockOwnerDeletionLoop n (r # rs) =
     (if ref_Controller r = Some True
      then Inl (Errorf (''cannot create resource '' @ n @ '' with controller owner reference ''
                  @ ref_Kind r @ ''/'' @ ref_Name r))
      else case blockOwnerDeletionLoop n rs of
             Inl e \<Rightarrow> Inl e
           | Inr rs' \<Rightarrow> Inr (r\<lparr>ref_BlockOwnerDeletion := Some True\<rparr> # rs'))"

definition bundleControllerRef :: "Bundle \<Rightarrow> ownerReference" where
  "bundleControllerRef b =
     \<lparr>ref_APIVersion = BundleResourceGroupVersion, ref_Kind = BundleResourceKind,
      ref_Name = bundle_Name b, ref_UID = bundle_UID b,
      ref_Controller = Some True, ref_BlockOwnerDeletion = Some True\<rparr>"

definition dependencyRef :: "unstructured \<Rightarrow> ownerReference" where
  "dependencyRef obj =
     \<lparr>ref_APIVersion = GetAPIVersion obj, ref_Kind = GetKind obj,
      ref_Name = obj_Name obj, ref_UID = obj_UID obj,
      ref_Controller = None, ref_BlockOwnerDeletion = Some True\<rparr>"

text \<open>The second loop of step 3: one reference for each entry of \<^verbatim>\<open>DependsOn\<close>. The
  source reads the ready set without a check; a missing entry is a nil object, whose
  accessors panic.\<close>

fun dependencyRefsLoop :: "(string \<rightharpoonup> unstructured) \<Rightarrow> string list \<Rightarrow> err + ownerReference list" where
  "dependencyRefsLoop ready [] = Inr []"
| "dependencyRefsLoop ready (dep # deps) =
     (case ready dep of
        None \<Rightarrow> Inl NilPointerPanic
      | Some obj \<Rightarrow>
          (case dependencyRefsLoop ready deps of
             Inl e \<Rightarrow> Inl e
           | Inr rs \<Rightarrow> Inr (dependencyRef obj # rs)))"

definition evalSpec :: "collaborators \<Rightarrow> syncTask \<Rightarrow> resource \<Rightarrow> err + unstructured" where
  "evalSpec env st res =
     (case ToUnstructured env res of
        Inl e \<Rightarrow> Inl e
      | Inr spec0 \<Rightarrow>
          (case ProcessObject env (res_Name res) (readyResources st) (res_DependsOn res) spec0 of
             Inl e \<Rightarrow> Inl e
           | Inr spec1 \<Rightarrow>
               let spec2 = spec1\<lparr>obj_Labels :=
                             mergeLabels [bundle_Labels (st_bundle st), obj_Labels spec1,
                                          [(BundleNameLabel, bundle_Name (st_bundle st))]]\<rparr>
               in (case blockOwnerDeletionLoop (res_Name res) (obj_OwnerReferences spec2) of
                     Inl e \<Rightarrow> Inl e
                   | Inr refs \<Rightarrow>
                       (case dependencyRefsLoop (readyResources st) (res_DependsOn res) of
                          Inl e \<Rightarrow> Inl e
                        | Inr depRefs \<Rightarrow>
                            Inr (spec2\<lparr>obj_OwnerReferences :=
                                        refs @ [bundleControllerRef (st_bundle st)] @ depRefs\<rparr>)))))"

section \<open>Creating and updating\<close>

text \<open>\<^verbatim>\<open>api_errors.NewConflict\<close>: a status error with reason Conflict.\<close>

definition NewConflict :: "string \<Rightarrow> string \<Rightarrow> string \<Rightarrow> err \<Rightarrow> err" where
  "NewConflict grp rsc n e =
     StatusError StatusReasonConflict
       (''Operation cannot be fulfilled on '' @ (if grp = [] then rsc else rsc @ ''.'' @ grp)
          @ '' '' @ n @ '': '' @ Error e)"

text \<open>The result of \<^verbatim>\<open>createOrUpdate\<close>, \<^verbatim>\<open>createResource\<close> and \<^verbatim>\<open>updateResource\<close>: the
  source returns either an object with \<^verbatim>\<open>false\<close> and no error, or no object with the
  retriable flag and the error.\<close>

definition createResource ::
  "collaborators \<Rightarrow> syncTask \<Rightarrow> unstructured \<Rightarrow> (bool \<times> err + unstructured) \<times> syncTask" where
  "createResource env st spec =
     (let gvk = obj_GroupVersionKind spec;
          ns = bundle_Namespace (st_bundle st);
          st' = st\<lparr>calls := calls st @ [EvCreate gvk ns spec]\<rparr>
      in case Create env (calls st) gvk ns spec of
           Inr response \<Rightarrow> (Inr response, st')
         | Inl e \<Rightarrow>
             if IsAlreadyExists e
             then (Inl (False, Wrapf (NewConflict (Group gvk) (Kind gvk) (obj_Name spec) e)
                          (''object '' @ obj_Name spec
                             @ '' found, but not in Store yet (will re-process)'')), st')
             else (Inl (True, e), st'))"

text \<open>In \<^verbatim>\<open>updateResource\<close> the message of the wrapped conflict has one verb for three
  arguments, so it prints the namespace.\<close>

definition updateResource ::
  "collaborators \<Rightarrow> syncTask \<Rightarrow> unstructured \<Rightarrow> unstructured
     \<Rightarrow> (bool \<times> err + unstructured) \<times> syncTask" where
  "updateResource env st spec actual =
     (if obj_DeletionTimestamp actual \<noteq> None
      then (Inl (False, Errorf (''object '' @ obj_Name actual @ '' is marked for deletion'')), st)
      else if \<not> IsControlledBy actual (st_bundle st)
      then (Inl (False, Errorf (''object '' @ obj_Name actual @ '' is not owned by the Bundle'')), st)
      else
        (case CompareActualVsSpec env spec actual of
           Inl e \<Rightarrow> (Inl (False, e), st)
         | Inr (updated, match) \<Rightarrow>
             if match then (Inr updated, st)
             else
               let gvk = obj_GroupVersionKind spec;
                   ns = bundle_Namespace (st_bundle st);
                   st' = st\<lparr>calls := calls st @ [EvUpdate gvk ns updated]\<rparr>
               in (case Update env (calls st) gvk ns updated of
                     Inl e \<Rightarrow>
                       if IsConflict e
                       then (Inl (False, Wrapf e (''object '' @ bundle_Namespace (st_bundle st)
                                    @ '' update resulted in conflict (will re-process)'')), st')
                       else (Inl (True, e), st')
                   | Inr updated' \<Rightarrow> (Inr updated', st'))))"

definition createOrUpdate ::
  "collaborators \<Rightarrow> syncTask \<Rightarrow> unstructured \<Rightarrow> (bool \<times> err + unstructured) \<times> syncTask" where
  "createOrUpdate env st spec =
     (let gvk = obj_GroupVersionKind spec;
          ns = bundle_Namespace (st_bundle st);
          st1 = st\<lparr>calls := calls st @ [EvForGVK gvk ns]\<rparr>
      in case ForGVK env (calls st) gvk ns of
           Some e \<Rightarrow> (Inl (False, e), st1)
         | None \<Rightarrow>
             let st2 = st1\<lparr>calls := calls st1 @ [EvGet gvk ns (obj_Name spec)]\<rparr>
             in (case Get env (calls st1) gvk ns (obj_Name spec) of
                   Inl e \<Rightarrow> (Inl (False, e), st2)
                 | Inr (Some obj) \<Rightarrow> updateResource env st2 spec obj
                 | Inr None \<Rightarrow> createResource env st2 spec))"

definition checkResource ::
  "collaborators \<Rightarrow> syncTask \<Rightarrow> resource
     \<Rightarrow> (unstructured option \<times> bool \<times> err option) \<times> syncTask" where
  "checkResource env st res =
     (case evalSpec env st res of
        Inl e \<Rightarrow> ((None, False, Some e), st)
      | Inr spec \<Rightarrow>
          (case createOrUpdate env st spec of
             (Inl (retriable, e), st1) \<Rightarrow> ((None, retriable, Some e), st1)
           | (Inr resUpdated, st1) \<Rightarrow>
               let st2 = st1\<lparr>calls := calls st1 @ [EvIsReady resUpdated]\<rparr>;
                   (ready, retriable, e) = IsReady env (calls st1) resUpdated
               in if e \<noteq> None \<or> \<not> ready then ((None, retriable, e), st2)
                  else ((Some resUpdated, False, None), st2)))"

section \<open>The dependency graph\<close>

text \<open>
  Modelled from the spec: package \<^verbatim>\<open>graph\<close> (\<^verbatim>\<open>NewGraph\<close>, \<^verbatim>\<open>AddVertex\<close>, \<^verbatim>\<open>AddEdge\<close>,
  \<^verbatim>\<open>Edges\<close>, \<^verbatim>\<open>TopologicalSort\<close>) is not in the sync task's file. The spec: vertices are
  resource names, added in declaration order; an edge from A to B means that A depends on
  B; adding an edge whose endpoints are not present fails; the sort produces a linear
  order in which every dependency precedes its dependents, breaks ties by declaration
  order, and reports a cycle as an error. The sort below emits, again and again, the first
  vertex in declaration order that is not emitted yet and whose edge targets are all
  emitted; when no such vertex is left and some vertex is not emitted, there is a cycle.
\<close>

record graph =
  orderedVertices :: "string list"
  vertexEdges :: "string \<Rightarrow> string list"

text \<open>Modelled from the spec: the empty graph.\<close>

definition NewGraph :: graph where
  "NewGraph = \<lparr>orderedVertices = [], vertexEdges = (\<lambda>v. [])\<rparr>"

text \<open>Modelled from the spec: vertices are kept in declaration order.\<close>

definition AddVertex :: "graph \<Rightarrow> string \<Rightarrow> graph" where
  "AddVertex g v =
     (if v \<in> set (orderedVertices g) then g
      else g\<lparr>orderedVertices := orderedVertices g @ [v]\<rparr>)"

text \<open>Modelled from the spec: adding an edge whose endpoints are not present fails with a
  structural error.\<close>

definition AddEdge :: "graph \<Rightarrow> string \<Rightarrow> string \<Rightarrow> err + graph" where
  "AddEdge g v w =
     (if v \<notin> set (orderedVertices g) then Inl (Errorf (''vertex '' @ v @ '' not found''))
      else if w \<notin> set (orderedVertices g) then Inl (Errorf (''vertex '' @ w @ '' not found''))
      else Inr (g\<lparr>vertexEdges := (vertexEdges g)(v := vertexEdges g v @ [w])\<rparr>))"

text \<open>Modelled from the spec: the edge targets of a vertex, that is, its dependencies.\<close>

definition Edges :: "graph \<Rightarrow> string \<Rightarrow> string list" where
  "Edges g v = vertexEdges g v"

text \<open>Modelled from the spec: one round of the sort for each vertex; a round emits the first
  vertex in declaration order whose dependencies are all emitted.\<close>

fun topologicalLoop :: "nat \<Rightarrow> graph \<Rightarrow> string list \<Rightarrow> err + string list" where
  "topologicalLoop 0 g acc =
     (if set (orderedVertices g) \<subseteq> set acc then Inr acc else Inl (Errorf ''cycle error''))"
| "topologicalLoop (Suc n) g acc =
     (case find (\<lambda>v. v \<notin> set acc \<and> set (Edges g v) \<subseteq> set acc) (orderedVertices g) of
        None \<Rightarrow>
          if set (orderedVertices g) \<subseteq> set acc then Inr acc else Inl (Errorf ''cycle error'')
      | Some v \<Rightarrow> topologicalLoop n g (acc @ [v]))"

text \<open>Modelled from the spec: a linear order in which every dependency precedes its
  dependents, or an error for a cycle.\<close>

definition TopologicalSort :: "graph \<Rightarrow> err + string list" where
  "TopologicalSort g = topologicalLoop (length (orderedVertices g)) g []"

subsection \<open>\<^verbatim>\<open>sortBundle\<close>\<close>

fun addEdgesOf :: "graph \<Rightarrow> string \<Rightarrow> string list \<Rightarrow> err + graph" where
  "addEdgesOf g n [] = Inr g"
| "addEdgesOf g n (d # ds) =
     (case AddEdge g n d of Inl e \<Rightarrow> Inl e | Inr g' \<Rightarrow> addEdgesOf g' n ds)"

fun addAllEdges :: "graph \<Rightarrow> resource list \<Rightarrow> err + graph" where
  "addAllEdges g [] = Inr g"
| "addAllEdges g (res # rest) =
     (case addEdgesOf g (res_Name res) (res_DependsOn res) of
        Inl e \<Rightarrow> Inl e
      | Inr g' \<Rightarrow> addAllEdges g' rest)"

definition sortBundle :: "Bundle \<Rightarrow> err + graph \<times> string list" where
  "sortBundle b =
     (let g = fold (\<lambda>res g. AddVertex g (res_Name res)) (bundle_Resources b) NewGraph
      in case addAllEdges g (bundle_Resources b) of
           Inl e \<Rightarrow> Inl e
         | Inr g' \<Rightarrow>
             (case TopologicalSort g' of
                Inl e \<Rightarrow> Inl e
              | Inr sortedVertices \<Rightarrow> Inr (g', sortedVertices)))"

section \<open>Deleting the objects removed from the Bundle\<close>

text \<open>\<^verbatim>\<open>existingObjs\<close> is a Go map from object reference to UID; it is kept as an
  association list with one entry for each key.\<close>

fun putRef :: "objectRef \<Rightarrow> string \<Rightarrow> (objectRef \<times> string) list \<Rightarrow> (objectRef \<times> string) list" where
  "putRef k v [] = [(k, v)]"
| "putRef k v (p # ps) = (if fst p = k then (k, v) # ps else p # putRef k v ps)"

fun collectExisting ::
  "Bundle \<Rightarrow> unstructured list \<Rightarrow> (objectRef \<times> string) list \<Rightarrow> (objectRef \<times> string) list" where
  "collectExisting b [] existingObjs = existingObjs"
| "collectExisting b (obj # objs) existingObjs =
     (if obj_DeletionTimestamp obj \<noteq> None then collectExisting b objs existingObjs
      else if \<not> IsControlledBy obj b then collectExisting b objs existingObjs
      else collectExisting b objs
             (putRef (obj_GroupVersionKind obj, obj_Name obj) (obj_UID obj) existingObjs))"

fun removeDeclared :: "resource list \<Rightarrow> (objectRef \<times> string) list \<Rightarrow> (objectRef \<times> string) list" where
  "removeDeclared [] existingObjs = existingObjs"
| "removeDeclared (res # rest) existingObjs =
     removeDeclared rest
       (filter (\<lambda>p. fst p \<noteq> (obj_GroupVersionKind (res_Spec res), obj_Name (res_Spec res)))
          existingObjs)"

definition deleteOptionsFor :: "string \<Rightarrow> deleteOptions" where
  "deleteOptionsFor uid =
     \<lparr>Preconditions_UID = Some uid, PropagationPolicy = Some DeletePropagationForeground\<rparr>"

text \<open>The deletion loop, with \<^verbatim>\<open>firstErr\<close> and \<^verbatim>\<open>retriable\<close> as its state.\<close>

fun deleteLoop ::
  "collaborators \<Rightarrow> string \<Rightarrow> (objectRef \<times> string) list \<Rightarrow> event list \<times> err option \<times> bool
     \<Rightarrow> event list \<times> err option \<times> bool" where
  "deleteLoop env ns [] s = s"
| "deleteLoop env ns ((ref, uid) # rest) (cs, firstErr, retriable) =
     (let cs1 = cs @ [EvForGVK (fst ref) ns]
      in case ForGVK env cs (fst ref) ns of
           Some e \<Rightarrow>
             if firstErr = None then deleteLoop env ns rest (cs1, Some e, False)
             else deleteLoop env ns rest (cs1, firstErr, retriable)
         | None \<Rightarrow>
             let cs2 = cs1 @ [EvDelete (fst ref) ns (snd ref) (deleteOptionsFor uid)]
             in (case Delete env cs1 (fst ref) ns (snd ref) (deleteOptionsFor uid) of
                   None \<Rightarrow> deleteLoop env ns rest (cs2, firstErr, retriable)
                 | Some e \<Rightarrow>
                     if \<not> IsNotFound e \<and> \<not> IsConflict e
                     then if firstErr = None then deleteLoop env ns rest (cs2, Some e, retriable)
                          else deleteLoop env ns rest (cs2, firstErr, retriable)
                     else deleteLoop env ns rest (cs2, firstErr, retriable)))"

text \<open>The order in which Go ranges over a map is not specified: \<^verbatim>\<open>mapRange\<close> of the
  collaborators gives the order of this run.\<close>

definition deleteRemovedResources ::
  "collaborators \<Rightarrow> syncTask \<Rightarrow> (bool \<times> err option) \<times> syncTask" where
  "deleteRemovedResources env st =
     (let b = st_bundle st;
          cs1 = calls st @ [EvGetObjectsForBundle (bundle_Namespace b) (bundle_Name b)]
      in case GetObjectsForBundle env (calls st) (bundle_Namespace b) (bundle_Name b) of
           Inl e \<Rightarrow> ((False, Some e), st\<lparr>calls := cs1\<rparr>)
         | Inr objs \<Rightarrow>
             let existingObjs = removeDeclared (bundle_Resources b) (collectExisting b objs []);
                 (cs2, firstErr, retriable) =
                    deleteLoop env (bundle_Namespace b) (mapRange env existingObjs)
                      (cs1, None, True)
             in ((retriable, firstErr), st\<lparr>calls := cs2\<rparr>))"

section \<open>One pass\<close>

fun buildResourceMap ::
  "(string \<rightharpoonup> resource) \<Rightarrow> resource list \<Rightarrow> err + (string \<rightharpoonup> resource)" where
  "buildResourceMap resourceMap [] = Inr resourceMap"
| "buildResourceMap resourceMap (res # rest) =
     (if resourceMap (res_Name res) \<noteq> None
      then Inl (Errorf (''bundle contains two resources with the same name '' @ res_Name res))
      else buildResourceMap (resourceMap(res_Name res \<mapsto> res)) rest)"

text \<open>Reading a Go map at a key it does not have gives the zero value.\<close>

definition zeroResource :: resource where
  "zeroResource =
     \<lparr>res_Name = [], res_DependsOn = [],
      res_Spec = \<lparr>obj_GroupVersionKind = \<lparr>Group = [], Version = [], Kind = []\<rparr>,
                  obj_Name = [], obj_UID = [], obj_Labels = [], obj_OwnerReferences = [],
                  obj_DeletionTimestamp = None, obj_Content = []\<rparr>\<rparr>"

text \<open>The loop over the sorted vertices: \<^verbatim>\<open>Some\<close> is the early return with an error.\<close>

fun visitVertices ::
  "collaborators \<Rightarrow> (string \<rightharpoonup> resource) \<Rightarrow> graph \<Rightarrow> string list \<Rightarrow> syncTask
     \<Rightarrow> (bool \<times> err) option \<times> syncTask" where
  "visitVertices env resourceMap g [] st = (None, st)"
| "visitVertices env resourceMap g (v # vs) st =
     (if \<not> list_all (\<lambda>dependency. readyResources st dependency \<noteq> None) (Edges g v)
      then visitVertices env resourceMap g vs st
      else
        let res = (case resourceMap v of Some r \<Rightarrow> r | None \<Rightarrow> zeroResource)
        in case checkResource env st res of
             ((readyResource, retriable, Some e), st1) \<Rightarrow> (Some (retriable, e), st1)
           | ((None, retriable, None), st1) \<Rightarrow> visitVertices env resourceMap g vs st1
           | ((Some obj, retriable, None), st1) \<Rightarrow>
               visitVertices env resourceMap g vs
                 (st1\<lparr>readyResources := (readyResources st1)(v \<mapsto> obj)\<rparr>))"

definition process :: "collaborators \<Rightarrow> syncTask \<Rightarrow> (bool \<times> err option) \<times> syncTask" where
  "process env st =
     (case buildResourceMap Map.empty (bundle_Resources (st_bundle st)) of
        Inl e \<Rightarrow> ((False, Some e), st)
      | Inr resourceMap \<Rightarrow>
          (case sortBundle (st_bundle st) of
             Inl e \<Rightarrow> ((False, Some e), st)
           | Inr (g, sortedVertices) \<Rightarrow>
               (case visitVertices env resourceMap g sortedVertices (st\<lparr>readyResources := Map.empty\<rparr>) of
                  (Some (retriable, e), st1) \<Rightarrow> ((retriable, Some e), st1)
                | (None, st1) \<Rightarrow>
                    (case deleteRemovedResources env st1 of
                       ((retriable, Some e), st2) \<Rightarrow> ((retriable, Some e), st2)
                     | ((retriable, None), st2) \<Rightarrow> ((False, None), st2)))))"

section \<open>Reading the conditions\<close>

definition conditionOf :: "syncTask \<Rightarrow> bundleConditionType \<Rightarrow> bundleCondition option" where
  "conditionOf st t = GetCondition (bundle_Conditions (st_bundle st)) t"

definition plainCondition :: "bundleConditionType \<Rightarrow> conditionStatus \<Rightarrow> bundleCondition" where
  "plainCondition t s = \<lparr>cond_Type = t, cond_Status = s, cond_Reason = [], cond_Message = []\<rparr>"

section \<open>Example inputs\<close>

text \<open>Collaborators that always succeed, and small Bundles, for concrete runs.\<close>

definition okEnv :: collaborators where
  "okEnv =
     \<lparr>ForGVK = (\<lambda>cs gvk ns. None),
      Get = (\<lambda>cs gvk ns n. Inr None),
      GetObjectsForBundle = (\<lambda>cs ns n. Inr []),
      Create = (\<lambda>cs gvk ns obj. Inr obj),
      Update = (\<lambda>cs gvk ns obj. Inr obj),
      Delete = (\<lambda>cs gvk ns n opts. None),
      IsReady = (\<lambda>cs obj. (True, False, None)),
      CompareActualVsSpec = (\<lambda>spec actual. Inr (spec, True)),
      ToUnstructured = (\<lambda>res. Inr (res_Spec res)),
      ProcessObject = (\<lambda>n ready deps obj. Inr obj),
      BundlesUpdate = (\<lambda>cs b. None),
      mapRange = (\<lambda>xs. xs)\<rparr>"

definition exampleObject :: "string \<Rightarrow> string \<Rightarrow> unstructured" where
  "exampleObject k n =
     \<lparr>obj_GroupVersionKind = \<lparr>Group = [], Version = ''v1'', Kind = k\<rparr>,
      obj_Name = n, obj_UID = ''uid-'' @ n, obj_Labels = [], obj_OwnerReferences = [],
      obj_DeletionTimestamp = None, obj_Content = []\<rparr>"

definition exampleBundle :: "resource list \<Rightarrow> Bundle" where
  "exampleBundle rs =
     \<lparr>bundle_Namespace = ''ns'', bundle_Name = ''b'', bundle_UID = ''uid-b'',
      bundle_Labels = [], bundle_Resources = rs, bundle_Conditions = []\<rparr>"

definition exampleTask :: "resource list \<Rightarrow> syncTask" where
  "exampleTask rs = \<lparr>st_bundle = exampleBundle rs, readyResources = Map.empty, calls = []\<rparr>"

definition exampleResource :: "string \<Rightarrow> string list \<Rightarrow> resource" where
  "exampleResource n deps =
     \<lparr>res_Name = n, res_DependsOn = deps, res_Spec = exampleObject ''ConfigMap'' n\<rparr>"

definition exampleConflict :: err where
  "exampleConflict =
     Wrapf (NewConflict [] ''ConfigMap'' ''a'' (StatusError StatusReasonAlreadyExists ''exists''))
       ''object a found, but not in Store yet (will re-process)''"

definition statusFailEnv :: collaborators where
  "statusFailEnv = okEnv\<lparr>BundlesUpdate := (\<lambda>cs b. Some (StatusError StatusReasonUnknown ''boom''))\<rparr>"

definition statusConflictEnv :: collaborators where
  "statusConflictEnv =
     okEnv\<lparr>BundlesUpdate := (\<lambda>cs b. Some (StatusError StatusReasonConflict ''stale''))\<rparr>"

definition ownedObject :: "string \<Rightarrow> string \<Rightarrow> unstructured" where
  "ownedObject k n =
     (exampleObject k n)\<lparr>obj_OwnerReferences := [bundleControllerRef (exampleBundle [])]\<rparr>"

definition deletingObject :: "string \<Rightarrow> string \<Rightarrow> unstructured" where
  "deletingObject k n = (ownedObject k n)\<lparr>obj_DeletionTimestamp := Some ''2017-08-01T00:00:00Z''\<rparr>"

definition createFailsEnv :: "err \<Rightarrow> collaborators" where
  "createFailsEnv e = okEnv\<lparr>Create := (\<lambda>cs gvk ns obj. Inl e)\<rparr>"

definition storeHasEnv :: "unstructured \<Rightarrow> collaborators" where
  "storeHasEnv actual = okEnv\<lparr>Get := (\<lambda>cs gvk ns n. Inr (Some actual))\<rparr>"

definition updateFailsEnv :: "unstructured \<Rightarrow> err \<Rightarrow> collaborators" where
  "updateFailsEnv actual e =
     okEnv\<lparr>Get := (\<lambda>cs gvk ns n. Inr (Some actual)),
           CompareActualVsSpec := (\<lambda>spec actual. Inr (spec, False)),
           Update := (\<lambda>cs gvk ns obj. Inl e)\<rparr>"

definition selfOwnedResource :: resource where
  "selfOwnedResource =
     \<lparr>res_Name = ''a'', res_DependsOn = [], res_Spec = ownedObject ''ConfigMap'' ''a''\<rparr>"

definition readyTask :: "resource list \<Rightarrow> (string \<times> unstructured) list \<Rightarrow> syncTask" where
  "readyTask rs ready = \<lparr>st_bundle = exampleBundle rs, readyResources = map_of ready, calls = []\<rparr>"

definition foreignRef :: ownerReference where
  "foreignRef =
     \<lparr>ref_APIVersion = ''apps/v1'', ref_Kind = ''Deployment'', ref_Name = ''d'',
      ref_UID = ''uid-d'', ref_Controller = Some False, ref_BlockOwnerDeletion = None\<rparr>"

section \<open>Failures of the deletion loop\<close>

text \<open>The failures the deletion loop meets, in the order of the iteration, as the spec words
  them: a client that cannot be acquired, or an answer to a delete that is an error other
  than NotFound and Conflict. Every step makes its calls whether or not an earlier step
  failed.\<close>

datatype failureKind = ClientFailure | DeleteFailure

fun failures ::
  "collaborators \<Rightarrow> string \<Rightarrow> (objectRef \<times> string) list \<Rightarrow> event list
     \<Rightarrow> (failureKind \<times> err) list" where
  "failures env ns [] cs = []"
| "failures env ns ((ref, uid) # rest) cs =
     (let cs1 = cs @ [EvForGVK (fst ref) ns];
          cs2 = cs1 @ [EvDelete (fst ref) ns (snd ref) (deleteOptionsFor uid)]
      in case ForGVK env cs (fst ref) ns of
           Some e \<Rightarrow> (ClientFailure, e) # failures env ns rest cs1
         | None \<Rightarrow>
             (case Delete env cs1 (fst ref) ns (snd ref) (deleteOptionsFor uid) of
                None \<Rightarrow> failures env ns rest cs2
              | Some e \<Rightarrow>
                  if IsNotFound e \<or> IsConflict e then failures env ns rest cs2
                  else (DeleteFailure, e) # failures env ns rest cs2))"

definition firstError :: "(failureKind \<times> err) list \<Rightarrow> err option" where
  "firstError fs = (case fs of [] \<Rightarrow> None | f # rest \<Rightarrow> Some (snd f))"

definition firstIsClientFailure :: "(failureKind \<times> err) list \<Rightarrow> bool" where
  "firstIsClientFailure fs = (case fs of [] \<Rightarrow> False | f # rest \<Rightarrow> fst f = ClientFailure)"

definition gcEnv :: "unstructured list \<Rightarrow> collaborators" where
  "gcEnv objs = okEnv\<lparr>GetObjectsForBundle := (\<lambda>cs ns n. Inr objs)\<rparr>"

definition noSecretClientEnv :: "unstructured list \<Rightarrow> collaborators" where
  "noSecretClientEnv objs =
     (gcEnv objs)\<lparr>ForGVK := (\<lambda>cs gvk ns. if Kind gvk = ''Secret''
                                           then Some (Errorf ''no client for Secret'') else None),
                  Delete := (\<lambda>cs gvk ns n opts. Some (StatusError StatusReasonUnknown ''boom''))\<rparr>"

section \<open>The objects removed from the Bundle\<close>



fun isDelete :: "event \<Rightarrow> bool" where
  "isDelete (EvDelete gvk ns n opts) = True"
| "isDelete ev = False"

definition deleteOf :: "string \<Rightarrow> objectRef \<times> string \<Rightarrow> event" where
  "deleteOf ns p = EvDelete (fst (fst p)) ns (snd (fst p)) (deleteOptionsFor (snd p))"



section \<open>Observed readiness\<close>

text \<open>An object was observed ready during a run of calls when the run holds a call of the
  ready checker for that object which answered ready without an error. The calls before the
  run are given, since an answer may depend on them.\<close>

fun observedReadyFrom :: "collaborators \<Rightarrow> event list \<Rightarrow> event list \<Rightarrow> unstructured \<Rightarrow> bool" where
  "observedReadyFrom env before [] obj = False"
| "observedReadyFrom env before (ev # rest) obj =
     ((ev = EvIsReady obj \<and> fst (IsReady env before obj) \<and> snd (snd (IsReady env before obj)) = None)
      \<or> observedReadyFrom env (before @ [ev]) rest obj)"

definition chainResources :: "resource list" where
  "chainResources = [exampleResource ''b'' [''a''], exampleResource ''a'' []]"

definition notReadyEnv :: collaborators where
  "notReadyEnv = okEnv\<lparr>IsReady := (\<lambda>cs obj. (False, False, None))\<rparr>"

definition createdObject :: "string \<Rightarrow> ownerReference list \<Rightarrow> unstructured" where
  "createdObject n deps =
     (exampleObject ''ConfigMap'' n)
       \<lparr>obj_Labels := [(BundleNameLabel, ''b'')],
        obj_OwnerReferences := bundleControllerRef (exampleBundle []) # deps\<rparr>"

definition chainGraph :: graph where
  "chainGraph = \<lparr>orderedVertices = [''b'', ''a''], vertexEdges = (\<lambda>v. [])(''b'' := [''a''])\<rparr>"

section \<open>The relation induced by dependsOn\<close>

text \<open>The words of the spec for the structural errors of a Bundle: the pairs (resource,
  dependency) its resources declare; a cycle is a resource that reaches itself.\<close>

definition dependsOnRel :: "resource list \<Rightarrow> (string \<times> string) set" where
  "dependsOnRel rs = {(n, d). \<exists>res\<in>set rs. res_Name res = n \<and> d \<in> set (res_DependsOn res)}"

definition hasDuplicateNames :: "resource list \<Rightarrow> bool" where
  "hasDuplicateNames rs = (\<not> distinct (map res_Name rs))"

definition hasDanglingDependsOn :: "resource list \<Rightarrow> bool" where
  "hasDanglingDependsOn rs = (\<exists>(n, d)\<in>dependsOnRel rs. d \<notin> set (map res_Name rs))"

definition hasCycle :: "resource list \<Rightarrow> bool" where
  "hasCycle rs = (\<exists>n. (n, n) \<in> (dependsOnRel rs)\<^sup>+)"

definition duplicateResources :: "resource list" where
  "duplicateResources = [exampleResource ''a'' [], exampleResource ''a'' []]"

definition danglingResources :: "resource list" where
  "danglingResources = [exampleResource ''a'' [''x'']]"

definition cycleResources :: "resource list" where
  "cycleResources = [exampleResource ''a'' [''b''], exampleResource ''b'' [''a'']]"



text \<open>The words of the spec for an entry of the ready set: during the pass, at a moment
  after the given start, \<^verbatim>\<open>checkResource\<close> was run for the resource of that name, with
  every edge target of its vertex in the ready set, and returned that object.\<close>

definition checkedWithin ::
  "collaborators \<Rightarrow> (string \<rightharpoonup> resource) \<Rightarrow> graph \<Rightarrow> syncTask \<Rightarrow> event list \<Rightarrow> string
     \<Rightarrow> unstructured \<Rightarrow> bool" where
  "checkedWithin env rm g st finalCalls n obj =
     (\<exists>st0 st1 pre post.
        calls st0 = calls st @ pre \<and> st_bundle st0 = st_bundle st
      \<and> finalCalls = calls st1 @ post
      \<and> list_all (\<lambda>dependency. readyResources st0 dependency \<noteq> None) (Edges g n)
      \<and> checkResource env st0 (case rm n of Some r \<Rightarrow> r | None \<Rightarrow> zeroResource)
          = ((Some obj, False, None), st1))"

definition chainMap :: "string \<rightharpoonup> resource" where
  "chainMap = [''b'' \<mapsto> exampleResource ''b'' [''a''], ''a'' \<mapsto> exampleResource ''a'' []]"

section \<open>Properties of the status folding\<close>

lemma GetCondition_replaceCondition:
  "GetCondition (replaceCondition cs c) t = (if t = cond_Type c then Some c else GetCondition cs t)"
  by (induction cs) auto

lemma foldedConditions_types:
  "foldedConditions st r p = (c1, c2, c3) \<Longrightarrow>
     cond_Type c1 = BundleInProgress \<and> cond_Type c2 = BundleReady \<and> cond_Type c3 = BundleError"
  by (auto simp: foldedConditions_def Let_def split: option.splits if_splits)

lemma setBundleStatus_bundle: "st_bundle (snd (setBundleStatus env st)) = st_bundle st"
  by (simp add: setBundleStatus_def Let_def split: option.splits)

lemma setBundleStatus_calls:
  "calls (snd (setBundleStatus env st)) = calls st @ [EvBundlesUpdate (st_bundle st)]"
  by (simp add: setBundleStatus_def Let_def split: option.splits)

lemma handleProcessResult_folded:
  assumes "\<forall>e. p = Some e \<longrightarrow>
             \<not> IsConflict (Cause e) \<and> e \<noteq> ContextCanceled \<and> e \<noteq> ContextDeadlineExceeded"
    and "foldedConditions st r p = (c1, c2, c3)"
  shows "handleProcessResult env st r p =
      (let u1 = fst (UpdateCondition (st_bundle st) c1);
           b1 = snd (UpdateCondition (st_bundle st) c1);
           u2 = fst (UpdateCondition b1 c2);
           b2 = snd (UpdateCondition b1 c2);
           u3 = fst (UpdateCondition b2 c3);
           b3 = snd (UpdateCondition b2 c3);
           st3 = st\<lparr>st_bundle := b3\<rparr>
       in if u1 \<or> u2 \<or> u3
          then if p = None then ((True, fst (setBundleStatus env st3)), snd (setBundleStatus env st3))
               else ((r, p), snd (setBundleStatus env st3))
          else ((r, p), st3))"
proof (cases p)
  case None
  then show ?thesis
    using assms(2) by (simp add: handleProcessResult_def Let_def split_beta)
next
  case (Some e)
  then have "\<not> IsConflict (Cause e)" "e \<noteq> ContextCanceled" "e \<noteq> ContextDeadlineExceeded"
    using assms(1) by auto
  then show ?thesis
    using assms(2) Some by (simp add: handleProcessResult_def Let_def split_beta)
qed

lemma handleProcessResult_conditionOf:
  assumes "\<forall>e. p = Some e \<longrightarrow>
             \<not> IsConflict (Cause e) \<and> e \<noteq> ContextCanceled \<and> e \<noteq> ContextDeadlineExceeded"
  shows "conditionOf (snd (handleProcessResult env st r p)) t =
           (case t of BundleInProgress \<Rightarrow> Some (fst (foldedConditions st r p))
            | BundleReady \<Rightarrow> Some (fst (snd (foldedConditions st r p)))
            | BundleError \<Rightarrow> Some (snd (snd (foldedConditions st r p))))"
proof -
  obtain c1 c2 c3 where f: "foldedConditions st r p = (c1, c2, c3)"
    by (metis prod_cases3)
  note ty = foldedConditions_types [OF f]
  show ?thesis
    using ty
    by (cases t)
       (simp_all add: handleProcessResult_folded [OF assms f] f UpdateCondition_def Let_def
          conditionOf_def setBundleStatus_bundle GetCondition_replaceCondition)
qed

lemma isBundleReadyLoop_iff:
  "isBundleReadyLoop ready rs \<longleftrightarrow> (\<forall>res\<in>set rs. ready (res_Name res) \<noteq> None)"
  by (induction rs) auto

lemma isBundleReady_iff:
  "isBundleReady st \<longleftrightarrow>
     (\<forall>res\<in>set (bundle_Resources (st_bundle st)). readyResources st (res_Name res) \<noteq> None)"
  by (simp add: isBundleReady_def isBundleReadyLoop_iff)

lemma handleProcessResult_bundle:
  assumes "\<forall>e. p = Some e \<longrightarrow>
             \<not> IsConflict (Cause e) \<and> e \<noteq> ContextCanceled \<and> e \<noteq> ContextDeadlineExceeded"
    and "foldedConditions st r p = (c1, c2, c3)"
  shows "st_bundle (snd (handleProcessResult env st r p)) =
           snd (UpdateCondition (snd (UpdateCondition (snd (UpdateCondition (st_bundle st) c1)) c2)) c3)"
  by (simp add: handleProcessResult_folded [OF assms] Let_def setBundleStatus_bundle)

lemma updated_iff_changed:
  assumes "\<forall>e. p = Some e \<longrightarrow>
             \<not> IsConflict (Cause e) \<and> e \<noteq> ContextCanceled \<and> e \<noteq> ContextDeadlineExceeded"
    and f: "foldedConditions st r p = (c1, c2, c3)"
  defines "b1 \<equiv> snd (UpdateCondition (st_bundle st) c1)"
  defines "b2 \<equiv> snd (UpdateCondition b1 c2)"
  shows "(fst (UpdateCondition (st_bundle st) c1) \<or> fst (UpdateCondition b1 c2)
            \<or> fst (UpdateCondition b2 c3))
         \<longleftrightarrow> (\<exists>t. conditionOf (snd (handleProcessResult env st r p)) t \<noteq> conditionOf st t)"
proof -
  note ty = foldedConditions_types [OF f]
  have after: "conditionOf (snd (handleProcessResult env st r p)) t =
      (case t of BundleInProgress \<Rightarrow> Some c1 | BundleReady \<Rightarrow> Some c2 | BundleError \<Rightarrow> Some c3)" for t
    using handleProcessResult_conditionOf [OF assms(1), where st=st and r=r and env=env and t=t]
    by (cases t) (simp_all add: f)
  have u1: "fst (UpdateCondition (st_bundle st) c1) \<longleftrightarrow> conditionOf st BundleInProgress \<noteq> Some c1"
    using ty by (simp add: UpdateCondition_def conditionOf_def)
  have u2: "fst (UpdateCondition b1 c2) \<longleftrightarrow> conditionOf st BundleReady \<noteq> Some c2"
    using ty by (simp add: UpdateCondition_def conditionOf_def b1_def GetCondition_replaceCondition)
  have u3: "fst (UpdateCondition b2 c3) \<longleftrightarrow> conditionOf st BundleError \<noteq> Some c3"
    using ty
    by (simp add: UpdateCondition_def conditionOf_def b1_def b2_def GetCondition_replaceCondition)
  have "(\<exists>t. conditionOf (snd (handleProcessResult env st r p)) t \<noteq> conditionOf st t)
          \<longleftrightarrow> (conditionOf st BundleInProgress \<noteq> Some c1 \<or> conditionOf st BundleReady \<noteq> Some c2
                \<or> conditionOf st BundleError \<noteq> Some c3)"
  proof
    assume "\<exists>t. conditionOf (snd (handleProcessResult env st r p)) t \<noteq> conditionOf st t"
    then obtain t where "conditionOf (snd (handleProcessResult env st r p)) t \<noteq> conditionOf st t" ..
    then show "conditionOf st BundleInProgress \<noteq> Some c1 \<or> conditionOf st BundleReady \<noteq> Some c2
                \<or> conditionOf st BundleError \<noteq> Some c3"
      by (cases t) (auto simp: after)
  next
    assume "conditionOf st BundleInProgress \<noteq> Some c1 \<or> conditionOf st BundleReady \<noteq> Some c2
                \<or> conditionOf st BundleError \<noteq> Some c3"
    then show "\<exists>t. conditionOf (snd (handleProcessResult env st r p)) t \<noteq> conditionOf st t"
      using after [of BundleInProgress] after [of BundleReady] after [of BundleError]
      by (metis bundleConditionType.simps(7,8,9))
  qed
  then show ?thesis by (simp add: u1 u2 u3)
qed

lemma handleProcessResult_cases:
  fixes env st r p
  defines "st3 \<equiv> st\<lparr>st_bundle := st_bundle (snd (handleProcessResult env st r p))\<rparr>"
  assumes ns: "\<forall>e. p = Some e \<longrightarrow>
             \<not> IsConflict (Cause e) \<and> e \<noteq> ContextCanceled \<and> e \<noteq> ContextDeadlineExceeded"
  shows "handleProcessResult env st r p =
     (if \<exists>t. conditionOf (snd (handleProcessResult env st r p)) t \<noteq> conditionOf st t
      then if p = None
           then ((True, fst (setBundleStatus env st3)), snd (setBundleStatus env st3))
           else ((r, p), snd (setBundleStatus env st3))
      else ((r, p), st3))"
proof -
  obtain c1 c2 c3 where f: "foldedConditions st r p = (c1, c2, c3)"
    by (metis prod_cases3)
  have b: "st_bundle (snd (handleProcessResult env st r p)) =
           snd (UpdateCondition (snd (UpdateCondition (snd (UpdateCondition (st_bundle st) c1)) c2)) c3)"
    by (rule handleProcessResult_bundle [OF ns f])
  show ?thesis
    unfolding updated_iff_changed [OF ns f, where env=env, symmetric] st3_def b
    by (subst handleProcessResult_folded [OF ns f]) (simp add: Let_def)
qed

lemma handleProcessResult_bypass:
  "IsConflict (Cause e) \<or> e = ContextCanceled \<or> e = ContextDeadlineExceeded \<Longrightarrow>
     snd (handleProcessResult env st r (Some e)) = st"
  by (auto simp: handleProcessResult_def)

lemma handleProcessResult_calls:
  "calls (snd (handleProcessResult env st r p)) =
     (if \<exists>t. conditionOf (snd (handleProcessResult env st r p)) t \<noteq> conditionOf st t
      then calls st @ [EvBundlesUpdate (st_bundle (snd (handleProcessResult env st r p)))]
      else calls st)"
proof (cases "\<forall>e. p = Some e \<longrightarrow>
             \<not> IsConflict (Cause e) \<and> e \<noteq> ContextCanceled \<and> e \<noteq> ContextDeadlineExceeded")
  case True
  show ?thesis
    by (subst (1) handleProcessResult_cases [OF True]) (simp add: setBundleStatus_calls)
next
  case False
  then obtain e where "p = Some e"
    "IsConflict (Cause e) \<or> e = ContextCanceled \<or> e = ContextDeadlineExceeded"
    by auto
  then show ?thesis
    by (simp add: handleProcessResult_bypass)
qed

lemma handleProcessResult_nil_changed:
  assumes "\<exists>t. conditionOf (snd (handleProcessResult env st r None)) t \<noteq> conditionOf st t"
  shows "fst (handleProcessResult env st r None) =
           (True, fst (setBundleStatus env
                         (st\<lparr>st_bundle := st_bundle (snd (handleProcessResult env st r None))\<rparr>)))"
  using assms by (subst handleProcessResult_cases) simp_all

lemmas example_defs = okEnv_def exampleTask_def exampleBundle_def exampleObject_def
  handleProcessResult_def foldedConditions_def UpdateCondition_def setBundleStatus_def
  conditionOf_def isBundleReady_def plainCondition_def Let_def

text \<open>
  C1. \<^verbatim>\<open>handleProcessResult\<close> folds the outcome into the three conditions of the table.
  With no error and every resource of the Bundle in the ready set: InProgress False, Ready
  True, Error False. With no error and some resource not ready: InProgress True, Ready
  False, Error False. With a retriable error: InProgress True, Ready False, Error True with
  reason RetriableError and the error text as message. With a terminal error: InProgress
  False, Ready False, Error True with reason TerminalError and the error text as message.
  The errors that are folded are those that are not one of the special cases which surface
  before the folding (a conflict as cause, the context's cancellation or deadline error);
  for a special case the sync task is left as it was.
\<close>

theorem handleProcessResult_folds:
  fixes env st retriable e
  defines "after \<equiv> \<lambda>p. conditionOf (snd (handleProcessResult env st retriable p))"
  defines "folded \<equiv> \<not> IsConflict (Cause e) \<and> e \<noteq> ContextCanceled \<and> e \<noteq> ContextDeadlineExceeded"
  shows
  "((\<forall>res\<in>set (bundle_Resources (st_bundle st)). readyResources st (res_Name res) \<noteq> None) \<longrightarrow>
      after None BundleInProgress = Some (plainCondition BundleInProgress ConditionFalse)
    \<and> after None BundleReady = Some (plainCondition BundleReady ConditionTrue)
    \<and> after None BundleError = Some (plainCondition BundleError ConditionFalse))
   \<and> (\<not> (\<forall>res\<in>set (bundle_Resources (st_bundle st)). readyResources st (res_Name res) \<noteq> None) \<longrightarrow>
      after None BundleInProgress = Some (plainCondition BundleInProgress ConditionTrue)
    \<and> after None BundleReady = Some (plainCondition BundleReady ConditionFalse)
    \<and> after None BundleError = Some (plainCondition BundleError ConditionFalse))
   \<and> (folded \<and> retriable \<longrightarrow>
      after (Some e) BundleInProgress = Some (plainCondition BundleInProgress ConditionTrue)
    \<and> after (Some e) BundleReady = Some (plainCondition BundleReady ConditionFalse)
    \<and> after (Some e) BundleError =
        Some \<lparr>cond_Type = BundleError, cond_Status = ConditionTrue,
              cond_Reason = BundleReasonRetriableError, cond_Message = Error e\<rparr>)
   \<and> (folded \<and> \<not> retriable \<longrightarrow>
      after (Some e) BundleInProgress = Some (plainCondition BundleInProgress ConditionFalse)
    \<and> after (Some e) BundleReady = Some (plainCondition BundleReady ConditionFalse)
    \<and> after (Some e) BundleError =
        Some \<lparr>cond_Type = BundleError, cond_Status = ConditionTrue,
              cond_Reason = BundleReasonTerminalError, cond_Message = Error e\<rparr>)
   \<and> (\<not> folded \<longrightarrow> snd (handleProcessResult env st retriable (Some e)) = st)"
proof -
  have special: "snd (handleProcessResult env st retriable (Some e)) = st" if "\<not> folded"
    using that unfolding folded_def by (intro handleProcessResult_bypass) blast
  have none: "after None t =
      (case t of BundleInProgress \<Rightarrow> Some (fst (foldedConditions st retriable None))
       | BundleReady \<Rightarrow> Some (fst (snd (foldedConditions st retriable None)))
       | BundleError \<Rightarrow> Some (snd (snd (foldedConditions st retriable None))))" for t
    unfolding after_def by (rule handleProcessResult_conditionOf) simp_all
  have some: "after (Some e) t =
      (case t of BundleInProgress \<Rightarrow> Some (fst (foldedConditions st retriable (Some e)))
       | BundleReady \<Rightarrow> Some (fst (snd (foldedConditions st retriable (Some e))))
       | BundleError \<Rightarrow> Some (snd (snd (foldedConditions st retriable (Some e)))))"
    if "folded" for t
    unfolding after_def using that
    by (intro handleProcessResult_conditionOf) (simp_all add: folded_def)
  have ready: "isBundleReady st \<Longrightarrow> foldedConditions st retriable None =
      (plainCondition BundleInProgress ConditionFalse, plainCondition BundleReady ConditionTrue,
       plainCondition BundleError ConditionFalse)"
    by (simp add: foldedConditions_def plainCondition_def)
  have unready: "\<not> isBundleReady st \<Longrightarrow> foldedConditions st retriable None =
      (plainCondition BundleInProgress ConditionTrue, plainCondition BundleReady ConditionFalse,
       plainCondition BundleError ConditionFalse)"
    by (simp add: foldedConditions_def plainCondition_def)
  have retr: "foldedConditions st True (Some e) =
      (plainCondition BundleInProgress ConditionTrue, plainCondition BundleReady ConditionFalse,
       \<lparr>cond_Type = BundleError, cond_Status = ConditionTrue,
        cond_Reason = BundleReasonRetriableError, cond_Message = Error e\<rparr>)"
    by (simp add: foldedConditions_def plainCondition_def)
  have terminal: "foldedConditions st False (Some e) =
      (plainCondition BundleInProgress ConditionFalse, plainCondition BundleReady ConditionFalse,
       \<lparr>cond_Type = BundleError, cond_Status = ConditionTrue,
        cond_Reason = BundleReasonTerminalError, cond_Message = Error e\<rparr>)"
    by (simp add: foldedConditions_def plainCondition_def)
  show ?thesis
    unfolding isBundleReady_iff [symmetric]
    by (simp add: none some ready unready retr terminal special)
qed

theorem handleProcessResult_folds_witness:
  "conditionOf (snd (handleProcessResult okEnv (exampleTask []) True None)) BundleReady
     = Some (plainCondition BundleReady ConditionTrue)
   \<and> conditionOf (snd (handleProcessResult okEnv (exampleTask [exampleResource ''a'' []]) True None))
        BundleInProgress = Some (plainCondition BundleInProgress ConditionTrue)
   \<and> conditionOf (snd (handleProcessResult okEnv (exampleTask []) True (Some (Errorf ''boom''))))
        BundleError
      = Some \<lparr>cond_Type = BundleError, cond_Status = ConditionTrue,
               cond_Reason = BundleReasonRetriableError, cond_Message = ''boom''\<rparr>
   \<and> conditionOf (snd (handleProcessResult okEnv (exampleTask []) False (Some (Errorf ''boom''))))
        BundleError
      = Some \<lparr>cond_Type = BundleError, cond_Status = ConditionTrue,
               cond_Reason = BundleReasonTerminalError, cond_Message = ''boom''\<rparr>
   \<and> snd (handleProcessResult okEnv (exampleTask []) False (Some exampleConflict))
       = exampleTask []"
  using handleProcessResult_folds [where env = okEnv and st = "exampleTask []" and retriable = True
          and e = "Errorf ''boom''"]
        handleProcessResult_folds [where env = okEnv and st = "exampleTask []" and retriable = False
          and e = exampleConflict]
        handleProcessResult_folds [where env = okEnv and st = "exampleTask []" and retriable = False
          and e = "Errorf ''boom''"]
        handleProcessResult_folds [where env = okEnv and st = "exampleTask [exampleResource ''a'' []]"
          and retriable = True and e = "Errorf ''boom''"]
  by (simp add: exampleTask_def exampleBundle_def exampleResource_def exampleConflict_def
        NewConflict_def)

text \<open>
  C4. Two special cases bypass the folding and the status write: a process error whose cause
  is a conflict is returned unchanged with the retriable flag passed in, and the context's
  cancellation or deadline error is returned with retriable false. In both cases the sync
  task is left as it was: no condition is updated and no status is written, so a conflict
  never produces an Error condition with reason TerminalError.
\<close>

theorem handleProcessResult_special_cases:
  "(IsConflict (Cause e) \<longrightarrow>
      handleProcessResult env st retriable (Some e) = ((retriable, Some e), st))
   \<and> (e = ContextCanceled \<or> e = ContextDeadlineExceeded \<longrightarrow>
      handleProcessResult env st retriable (Some e) = ((False, Some e), st))"
  by (auto simp: handleProcessResult_def)

theorem handleProcessResult_special_cases_witness:
  "IsConflict (Cause (Wrapf (StatusError StatusReasonConflict ''conflict'') ''will re-process''))
   \<and> handleProcessResult okEnv (exampleTask []) True
        (Some (Wrapf (StatusError StatusReasonConflict ''conflict'') ''will re-process''))
      = ((True, Some (Wrapf (StatusError StatusReasonConflict ''conflict'') ''will re-process'')),
         exampleTask [])
   \<and> handleProcessResult okEnv (exampleTask []) True (Some ContextCanceled)
      = ((False, Some ContextCanceled), exampleTask [])
   \<and> handleProcessResult okEnv (exampleTask []) True (Some ContextDeadlineExceeded)
      = ((False, Some ContextDeadlineExceeded), exampleTask [])"
  using handleProcessResult_special_cases
          [of "Wrapf (StatusError StatusReasonConflict ''conflict'') ''will re-process''"
              okEnv "exampleTask []" True]
        handleProcessResult_special_cases [of ContextCanceled okEnv "exampleTask []" True]
        handleProcessResult_special_cases [of ContextDeadlineExceeded okEnv "exampleTask []" True]
  by simp

text \<open>
  C9. The status is written back exactly when the effective value of at least one of the
  three conditions changed; a conflict of the status write is dropped by
  \<^verbatim>\<open>setBundleStatus\<close>, which returns no error; any other error of the status write
  replaces a nil process error, and the result is marked retriable.
\<close>

theorem status_written_on_change:
  fixes env st retriable p e
  defines "res \<equiv> handleProcessResult env st retriable p"
  defines "changed \<equiv> \<exists>t. conditionOf (snd res) t \<noteq> conditionOf st t"
  shows
  "calls (snd res) =
      (if changed then calls st @ [EvBundlesUpdate (st_bundle (snd res))] else calls st)
   \<and> (BundlesUpdate env (calls st) (st_bundle st) = Some e \<and> IsConflict e \<longrightarrow>
        fst (setBundleStatus env st) = None)
   \<and> (p = None \<and> changed \<and> BundlesUpdate env (calls st) (st_bundle (snd res)) = Some e
        \<and> \<not> IsConflict e \<longrightarrow> (\<exists>m. fst res = (True, Some (Errorf m))))"
proof (intro conjI impI)
  show "calls (snd res) =
      (if changed then calls st @ [EvBundlesUpdate (st_bundle (snd res))] else calls st)"
    unfolding res_def changed_def by (rule handleProcessResult_calls)
  show "fst (setBundleStatus env st) = None"
    if "BundlesUpdate env (calls st) (st_bundle st) = Some e \<and> IsConflict e"
    using that by (simp add: setBundleStatus_def)
  show "\<exists>m. fst res = (True, Some (Errorf m))"
    if h: "p = None \<and> changed \<and> BundlesUpdate env (calls st) (st_bundle (snd res)) = Some e
        \<and> \<not> IsConflict e"
  proof -
    from h have pN: "p = None" by simp
    from h have "\<exists>t. conditionOf (snd (handleProcessResult env st retriable None)) t
                   \<noteq> conditionOf st t"
      unfolding res_def changed_def pN by simp
    then have "fst res = (True, fst (setBundleStatus env (st\<lparr>st_bundle := st_bundle (snd res)\<rparr>)))"
      unfolding res_def pN by (rule handleProcessResult_nil_changed)
    with h show ?thesis by (simp add: setBundleStatus_def)
  qed
qed

theorem status_written_on_change_witness:
  "calls (snd (handleProcessResult statusFailEnv (exampleTask []) False None))
     = [EvBundlesUpdate (st_bundle (snd (handleProcessResult statusFailEnv (exampleTask []) False None)))]
   \<and> fst (setBundleStatus statusConflictEnv (exampleTask [])) = None
   \<and> (\<exists>m. fst (handleProcessResult statusFailEnv (exampleTask []) False None)
           = (True, Some (Errorf m)))"
proof -
  let ?res = "handleProcessResult statusFailEnv (exampleTask []) False None"
  have "conditionOf (snd ?res) BundleReady \<noteq> conditionOf (exampleTask []) BundleReady"
    by (simp add: statusFailEnv_def example_defs)
  then have ch: "\<exists>t. conditionOf (snd ?res) t \<noteq> conditionOf (exampleTask []) t" ..
  have bu: "BundlesUpdate statusFailEnv (calls (exampleTask [])) (st_bundle (snd ?res))
              = Some (StatusError StatusReasonUnknown ''boom'')"
    by (simp add: statusFailEnv_def okEnv_def)
  have co: "BundlesUpdate statusConflictEnv (calls (exampleTask [])) (st_bundle (exampleTask []))
              = Some (StatusError StatusReasonConflict ''stale'')"
    by (simp add: statusConflictEnv_def okEnv_def)
  show ?thesis
    using ch bu co
      status_written_on_change [where env = statusFailEnv and st = "exampleTask []"
        and retriable = False and p = None and e = "StatusError StatusReasonUnknown ''boom''"]
      status_written_on_change [where env = statusConflictEnv and st = "exampleTask []"
        and retriable = False and p = None and e = "StatusError StatusReasonConflict ''stale''"]
    by (simp add: exampleTask_def)
qed

text \<open>
  C10. After a pass without error in which the effective value of some condition changed and
  the status write succeeded, \<^verbatim>\<open>handleProcessResult\<close> returns retriable true together
  with a nil error.
\<close>

theorem retriable_with_nil_error:
  fixes env st retriable
  defines "res \<equiv> handleProcessResult env st retriable None"
  shows "(\<exists>t. conditionOf (snd res) t \<noteq> conditionOf st t)
           \<and> BundlesUpdate env (calls st) (st_bundle (snd res)) = None
         \<longrightarrow> fst res = (True, None)"
proof
  assume h: "(\<exists>t. conditionOf (snd res) t \<noteq> conditionOf st t)
           \<and> BundlesUpdate env (calls st) (st_bundle (snd res)) = None"
  then have "\<exists>t. conditionOf (snd res) t \<noteq> conditionOf st t" by simp
  then have "fst res = (True, fst (setBundleStatus env (st\<lparr>st_bundle := st_bundle (snd res)\<rparr>)))"
    unfolding res_def by (rule handleProcessResult_nil_changed)
  with h show "fst res = (True, None)" by (simp add: setBundleStatus_def)
qed

theorem retriable_with_nil_error_witness:
  "BundlesUpdate okEnv (calls (exampleTask []))
      (st_bundle (snd (handleProcessResult okEnv (exampleTask []) False None))) = None
   \<and> conditionOf (snd (handleProcessResult okEnv (exampleTask []) False None)) BundleReady
       \<noteq> conditionOf (exampleTask []) BundleReady
   \<and> fst (handleProcessResult okEnv (exampleTask []) False None) = (True, None)"
proof -
  let ?res = "handleProcessResult okEnv (exampleTask []) False None"
  have c: "conditionOf (snd ?res) BundleReady \<noteq> conditionOf (exampleTask []) BundleReady"
    by (simp add: example_defs)
  then have ch: "\<exists>t. conditionOf (snd ?res) t \<noteq> conditionOf (exampleTask []) t" ..
  have bu: "BundlesUpdate okEnv (calls (exampleTask [])) (st_bundle (snd ?res)) = None"
    by (simp add: okEnv_def)
  show ?thesis
    using c ch bu
      retriable_with_nil_error [where env = okEnv and st = "exampleTask []" and retriable = False]
    by simp
qed

section \<open>Properties of creating and updating\<close>

text \<open>
  C5. \<^verbatim>\<open>createOrUpdate\<close> classifies errors: a create that fails with AlreadyExists gives
  retriable false and a wrapped conflict; a create that fails otherwise gives retriable true;
  on the update path an object with a deletion timestamp and an object not controlled by the
  Bundle give terminal errors, an update rejected with a conflict gives retriable false, and
  any other error of the update gives retriable true.
\<close>

theorem createOrUpdate_classifies:
  fixes env st spec actual updated e
  defines "gvk \<equiv> obj_GroupVersionKind spec"
  defines "ns \<equiv> bundle_Namespace (st_bundle st)"
  defines "cs1 \<equiv> calls st @ [EvForGVK gvk ns]"
  defines "cs2 \<equiv> cs1 @ [EvGet gvk ns (obj_Name spec)]"
  defines "outcome \<equiv> fst (createOrUpdate env st spec)"
  shows
  "ForGVK env (calls st) gvk ns = None \<longrightarrow>
     (Get env cs1 gvk ns (obj_Name spec) = Inr None \<longrightarrow>
        (Create env cs2 gvk ns spec = Inl e \<and> IsAlreadyExists e \<longrightarrow>
           (\<exists>c m. outcome = Inl (False, Wrapf c m) \<and> IsConflict c))
      \<and> (Create env cs2 gvk ns spec = Inl e \<and> \<not> IsAlreadyExists e \<longrightarrow>
           outcome = Inl (True, e)))
   \<and> (Get env cs1 gvk ns (obj_Name spec) = Inr (Some actual) \<longrightarrow>
        (obj_DeletionTimestamp actual \<noteq> None \<longrightarrow> (\<exists>m. outcome = Inl (False, Errorf m)))
      \<and> (\<not> IsControlledBy actual (st_bundle st) \<longrightarrow> (\<exists>m. outcome = Inl (False, Errorf m)))
      \<and> (obj_DeletionTimestamp actual = None \<and> IsControlledBy actual (st_bundle st)
           \<and> CompareActualVsSpec env spec actual = Inr (updated, False) \<longrightarrow>
             (Update env cs2 gvk ns updated = Inl e \<and> IsConflict e \<longrightarrow>
                (\<exists>m. outcome = Inl (False, Wrapf e m)))
           \<and> (Update env cs2 gvk ns updated = Inl e \<and> \<not> IsConflict e \<longrightarrow>
                outcome = Inl (True, e))))"
  unfolding outcome_def cs2_def cs1_def ns_def gvk_def
  by (simp add: createOrUpdate_def createResource_def updateResource_def NewConflict_def Let_def)

theorem createOrUpdate_classifies_witness:
  "fst (createOrUpdate (createFailsEnv (StatusError StatusReasonAlreadyExists ''exists''))
          (exampleTask []) (exampleObject ''ConfigMap'' ''a''))
     = Inl (False, exampleConflict)
   \<and> fst (createOrUpdate (createFailsEnv (StatusError StatusReasonUnknown ''boom''))
          (exampleTask []) (exampleObject ''ConfigMap'' ''a''))
     = Inl (True, StatusError StatusReasonUnknown ''boom'')
   \<and> fst (createOrUpdate (storeHasEnv (deletingObject ''ConfigMap'' ''a''))
          (exampleTask []) (exampleObject ''ConfigMap'' ''a''))
     = Inl (False, Errorf ''object a is marked for deletion'')
   \<and> fst (createOrUpdate (storeHasEnv (exampleObject ''ConfigMap'' ''a''))
          (exampleTask []) (exampleObject ''ConfigMap'' ''a''))
     = Inl (False, Errorf ''object a is not owned by the Bundle'')
   \<and> fst (createOrUpdate
            (updateFailsEnv (ownedObject ''ConfigMap'' ''a'') (StatusError StatusReasonConflict ''stale''))
          (exampleTask []) (exampleObject ''ConfigMap'' ''a''))
     = Inl (False, Wrapf (StatusError StatusReasonConflict ''stale'')
                     ''object ns update resulted in conflict (will re-process)'')
   \<and> fst (createOrUpdate
            (updateFailsEnv (ownedObject ''ConfigMap'' ''a'') (StatusError StatusReasonUnknown ''boom''))
          (exampleTask []) (exampleObject ''ConfigMap'' ''a''))
     = Inl (True, StatusError StatusReasonUnknown ''boom'')"
  using
    createOrUpdate_classifies [where env = "createFailsEnv (StatusError StatusReasonAlreadyExists ''exists'')"
      and st = "exampleTask []" and spec = "exampleObject ''ConfigMap'' ''a''"
      and e = "StatusError StatusReasonAlreadyExists ''exists''"]
    createOrUpdate_classifies [where env = "createFailsEnv (StatusError StatusReasonUnknown ''boom'')"
      and st = "exampleTask []" and spec = "exampleObject ''ConfigMap'' ''a''"
      and e = "StatusError StatusReasonUnknown ''boom''"]
    createOrUpdate_classifies [where env = "storeHasEnv (deletingObject ''ConfigMap'' ''a'')"
      and st = "exampleTask []" and spec = "exampleObject ''ConfigMap'' ''a''"
      and actual = "deletingObject ''ConfigMap'' ''a''"]
    createOrUpdate_classifies [where env = "storeHasEnv (exampleObject ''ConfigMap'' ''a'')"
      and st = "exampleTask []" and spec = "exampleObject ''ConfigMap'' ''a''"
      and actual = "exampleObject ''ConfigMap'' ''a''"]
    createOrUpdate_classifies [where env = "updateFailsEnv (ownedObject ''ConfigMap'' ''a'')
          (StatusError StatusReasonConflict ''stale'')"
      and st = "exampleTask []" and spec = "exampleObject ''ConfigMap'' ''a''"
      and actual = "ownedObject ''ConfigMap'' ''a''" and updated = "exampleObject ''ConfigMap'' ''a''"
      and e = "StatusError StatusReasonConflict ''stale''"]
    createOrUpdate_classifies [where env = "updateFailsEnv (ownedObject ''ConfigMap'' ''a'')
          (StatusError StatusReasonUnknown ''boom'')"
      and st = "exampleTask []" and spec = "exampleObject ''ConfigMap'' ''a''"
      and actual = "ownedObject ''ConfigMap'' ''a''" and updated = "exampleObject ''ConfigMap'' ''a''"
      and e = "StatusError StatusReasonUnknown ''boom''"]
  by (simp add: createFailsEnv_def storeHasEnv_def updateFailsEnv_def okEnv_def exampleTask_def
        exampleBundle_def exampleObject_def ownedObject_def deletingObject_def exampleConflict_def
        createOrUpdate_def createResource_def updateResource_def NewConflict_def
        IsControlledBy_def bundleControllerRef_def Let_def)

section \<open>Properties of the evaluation\<close>

lemma blockOwnerDeletionLoop_fails:
  "\<exists>r\<in>set rs. ref_Controller r = Some True \<Longrightarrow> \<exists>m. blockOwnerDeletionLoop n rs = Inl (Errorf m)"
  by (induction rs) (fastforce split: sum.splits)+

lemma blockOwnerDeletionLoop_ok:
  "\<not> (\<exists>r\<in>set rs. ref_Controller r = Some True) \<Longrightarrow>
     blockOwnerDeletionLoop n rs = Inr (map (\<lambda>r. r\<lparr>ref_BlockOwnerDeletion := Some True\<rparr>) rs)"
  by (induction rs) auto

lemma dependencyRefsLoop_ok:
  "\<forall>d\<in>set deps. ready d \<noteq> None \<Longrightarrow>
     dependencyRefsLoop ready deps = Inr (map (\<lambda>d. dependencyRef (the (ready d))) deps)"
  by (induction deps) auto

text \<open>
  C2 (amended). While the specification of a resource is evaluated, an incoming owner
  reference with controller true ends the evaluation with a terminal error, whatever it
  refers to, the parent Bundle included, and no call is made for the resource. Without such
  a reference (and with every \<^verbatim>\<open>dependsOn\<close> peer in the ready set) the evaluation succeeds:
  the incoming references all get blockOwnerDeletion true, then comes the controller
  reference to the Bundle, then a reference without controller to the observed object of
  each \<^verbatim>\<open>dependsOn\<close> peer.
\<close>

theorem evalSpec_owner_references:
  fixes env st res spec0 spec1
  defines "incoming \<equiv> obj_OwnerReferences spec1"
  shows
  "ToUnstructured env res = Inr spec0
   \<and> ProcessObject env (res_Name res) (readyResources st) (res_DependsOn res) spec0 = Inr spec1
   \<longrightarrow>
     ((\<exists>r\<in>set incoming. ref_Controller r = Some True) \<longrightarrow>
        (\<exists>m. evalSpec env st res = Inl (Errorf m)
            \<and> checkResource env st res = ((None, False, Some (Errorf m)), st)))
   \<and> (\<not> (\<exists>r\<in>set incoming. ref_Controller r = Some True)
        \<and> (\<forall>d\<in>set (res_DependsOn res). readyResources st d \<noteq> None) \<longrightarrow>
        (\<exists>spec. evalSpec env st res = Inr spec
           \<and> obj_OwnerReferences spec =
               map (\<lambda>r. r\<lparr>ref_BlockOwnerDeletion := Some True\<rparr>) incoming
               @ [bundleControllerRef (st_bundle st)]
               @ map (\<lambda>d. dependencyRef (the (readyResources st d))) (res_DependsOn res)))"
proof (intro impI conjI)
  assume h: "ToUnstructured env res = Inr spec0
   \<and> ProcessObject env (res_Name res) (readyResources st) (res_DependsOn res) spec0 = Inr spec1"
  show "\<exists>m. evalSpec env st res = Inl (Errorf m)
            \<and> checkResource env st res = ((None, False, Some (Errorf m)), st)"
    if "\<exists>r\<in>set incoming. ref_Controller r = Some True"
  proof -
    from that obtain m where "blockOwnerDeletionLoop (res_Name res) (obj_OwnerReferences spec1) = Inl (Errorf m)"
      unfolding incoming_def using blockOwnerDeletionLoop_fails by blast
    with h have "evalSpec env st res = Inl (Errorf m)"
      by (simp add: evalSpec_def)
    then show ?thesis by (simp add: checkResource_def)
  qed
  show "\<exists>spec. evalSpec env st res = Inr spec
           \<and> obj_OwnerReferences spec =
               map (\<lambda>r. r\<lparr>ref_BlockOwnerDeletion := Some True\<rparr>) incoming
               @ [bundleControllerRef (st_bundle st)]
               @ map (\<lambda>d. dependencyRef (the (readyResources st d))) (res_DependsOn res)"
    if "\<not> (\<exists>r\<in>set incoming. ref_Controller r = Some True)
        \<and> (\<forall>d\<in>set (res_DependsOn res). readyResources st d \<noteq> None)"
  proof -
    from that have "blockOwnerDeletionLoop (res_Name res) (obj_OwnerReferences spec1)
        = Inr (map (\<lambda>r. r\<lparr>ref_BlockOwnerDeletion := Some True\<rparr>) incoming)"
      unfolding incoming_def by (intro blockOwnerDeletionLoop_ok) simp
    moreover from that have "dependencyRefsLoop (readyResources st) (res_DependsOn res)
        = Inr (map (\<lambda>d. dependencyRef (the (readyResources st d))) (res_DependsOn res))"
      by (intro dependencyRefsLoop_ok) simp
    ultimately show ?thesis
      using h by (simp add: evalSpec_def incoming_def)
  qed
qed

lemmas evalSpec_example_defs = okEnv_def exampleTask_def exampleBundle_def exampleObject_def
  exampleResource_def ownedObject_def selfOwnedResource_def readyTask_def foreignRef_def
  evalSpec_def checkResource_def bundleControllerRef_def dependencyRef_def mergeLabels_def
  GetAPIVersion_def GetKind_def BundleNameLabel_def

theorem evalSpec_owner_references_witness:
  "checkResource okEnv (exampleTask [selfOwnedResource]) selfOwnedResource
     = ((None, False,
         Some (Errorf ''cannot create resource a with controller owner reference Bundle/b'')),
        exampleTask [selfOwnedResource])
   \<and> evalSpec okEnv (readyTask [] [(''a'', exampleObject ''ConfigMap'' ''a'')])
        \<lparr>res_Name = ''b'', res_DependsOn = [''a''],
         res_Spec = (exampleObject ''ConfigMap'' ''b'')\<lparr>obj_OwnerReferences := [foreignRef]\<rparr>\<rparr>
     = Inr ((exampleObject ''ConfigMap'' ''b'')
              \<lparr>obj_Labels := [(BundleNameLabel, ''b'')],
               obj_OwnerReferences :=
                 [foreignRef\<lparr>ref_BlockOwnerDeletion := Some True\<rparr>,
                  bundleControllerRef (exampleBundle []),
                  dependencyRef (exampleObject ''ConfigMap'' ''a'')]\<rparr>)"
  using
    evalSpec_owner_references [where env = okEnv and st = "exampleTask [selfOwnedResource]"
      and res = selfOwnedResource and ?spec0.0 = "ownedObject ''ConfigMap'' ''a''"
      and ?spec1.0 = "ownedObject ''ConfigMap'' ''a''"]
    evalSpec_owner_references [where env = okEnv
      and st = "readyTask [] [(''a'', exampleObject ''ConfigMap'' ''a'')]"
      and res = "\<lparr>res_Name = ''b'', res_DependsOn = [''a''],
         res_Spec = (exampleObject ''ConfigMap'' ''b'')\<lparr>obj_OwnerReferences := [foreignRef]\<rparr>\<rparr>"
      and ?spec0.0 = "(exampleObject ''ConfigMap'' ''b'')\<lparr>obj_OwnerReferences := [foreignRef]\<rparr>"
      and ?spec1.0 = "(exampleObject ''ConfigMap'' ''b'')\<lparr>obj_OwnerReferences := [foreignRef]\<rparr>"]
  by (simp add: evalSpec_example_defs BundleResourceKind_def)

text \<open>The claim as written fails for a reference that is the parent Bundle's own controller
  reference: the evaluation ends with the error all the same.\<close>

theorem evalSpec_owner_references_counterexample:
  "obj_OwnerReferences (res_Spec selfOwnedResource)
     = [bundleControllerRef (st_bundle (exampleTask [selfOwnedResource]))]
   \<and> evalSpec okEnv (exampleTask [selfOwnedResource]) selfOwnedResource
     = Inl (Errorf ''cannot create resource a with controller owner reference Bundle/b'')"
  by (simp add: evalSpec_example_defs BundleResourceKind_def)

section \<open>Properties of the deletion\<close>

lemma deleteLoop_decided:
  "snd (deleteLoop env ns xs (cs, Some e, r)) = (Some e, r)"
  by (induction xs arbitrary: cs) (auto simp: Let_def split: option.splits)

lemma deleteLoop_result:
  "snd (deleteLoop env ns xs (cs, None, r)) =
     (firstError (failures env ns xs cs),
      if firstIsClientFailure (failures env ns xs cs) then False else r)"
proof (induction xs arbitrary: cs)
  case Nil
  then show ?case by (simp add: firstError_def firstIsClientFailure_def)
next
  case (Cons x xs)
  obtain ref uid where x: "x = (ref, uid)" by (cases x)
  show ?case
    unfolding x
    by (simp add: Let_def Cons.IH deleteLoop_decided firstError_def firstIsClientFailure_def
          split: option.splits)
qed

text \<open>
  C3 (amended). In \<^verbatim>\<open>deleteRemovedResources\<close>, when deletions fail, the first error in the
  order of the iteration is returned and the later ones do not change the result; the
  returned retriable flag is false if and only if that first error was a failure to acquire
  a resource client, whatever errors follow it, and true otherwise.
\<close>

theorem deleteRemovedResources_first_error:
  fixes env st objs
  defines "b \<equiv> st_bundle st"
  defines "cs1 \<equiv> calls st @ [EvGetObjectsForBundle (bundle_Namespace b) (bundle_Name b)]"
  defines "todo \<equiv> mapRange env (removeDeclared (bundle_Resources b) (collectExisting b objs []))"
  defines "fs \<equiv> failures env (bundle_Namespace b) todo cs1"
  shows "GetObjectsForBundle env (calls st) (bundle_Namespace b) (bundle_Name b) = Inr objs \<longrightarrow>
           fst (deleteRemovedResources env st) = (\<not> firstIsClientFailure fs, firstError fs)"
proof
  assume h: "GetObjectsForBundle env (calls st) (bundle_Namespace b) (bundle_Name b) = Inr objs"
  have "snd (deleteLoop env (bundle_Namespace b) todo (cs1, None, True))
          = (firstError fs, \<not> firstIsClientFailure fs)"
    unfolding fs_def by (simp add: deleteLoop_result)
  then show "fst (deleteRemovedResources env st) = (\<not> firstIsClientFailure fs, firstError fs)"
    using h unfolding b_def cs1_def todo_def
    by (simp add: deleteRemovedResources_def Let_def split_beta)
qed

lemmas gc_example_defs = gcEnv_def noSecretClientEnv_def okEnv_def exampleTask_def
  exampleBundle_def exampleObject_def ownedObject_def deleteRemovedResources_def
  IsControlledBy_def bundleControllerRef_def deleteOptionsFor_def firstError_def
  firstIsClientFailure_def Let_def

theorem deleteRemovedResources_first_error_witness:
  "fst (deleteRemovedResources
          (noSecretClientEnv [ownedObject ''Secret'' ''s'', ownedObject ''ConfigMap'' ''c''])
          (exampleTask []))
     = (False, Some (Errorf ''no client for Secret''))
   \<and> fst (deleteRemovedResources
          (noSecretClientEnv [ownedObject ''ConfigMap'' ''c'', ownedObject ''Secret'' ''s''])
          (exampleTask []))
     = (True, Some (StatusError StatusReasonUnknown ''boom''))"
  using
    deleteRemovedResources_first_error
      [where env = "noSecretClientEnv [ownedObject ''Secret'' ''s'', ownedObject ''ConfigMap'' ''c'']"
        and st = "exampleTask []"
        and objs = "[ownedObject ''Secret'' ''s'', ownedObject ''ConfigMap'' ''c'']"]
    deleteRemovedResources_first_error
      [where env = "noSecretClientEnv [ownedObject ''ConfigMap'' ''c'', ownedObject ''Secret'' ''s'']"
        and st = "exampleTask []"
        and objs = "[ownedObject ''ConfigMap'' ''c'', ownedObject ''Secret'' ''s'']"]
  by (simp add: gc_example_defs)

text \<open>The claim as written fails when a failure to acquire a client comes first and a delete
  fails after it: the flag is false although the client failure is not the only error.\<close>

theorem deleteRemovedResources_first_error_counterexample:
  "failures (noSecretClientEnv [ownedObject ''Secret'' ''s'', ownedObject ''ConfigMap'' ''c'']) ''ns''
       [((\<lparr>Group = [], Version = ''v1'', Kind = ''Secret''\<rparr>, ''s''), ''uid-s''),
        ((\<lparr>Group = [], Version = ''v1'', Kind = ''ConfigMap''\<rparr>, ''c''), ''uid-c'')]
       [EvGetObjectsForBundle ''ns'' ''b'']
     = [(ClientFailure, Errorf ''no client for Secret''),
        (DeleteFailure, StatusError StatusReasonUnknown ''boom'')]
   \<and> deleteRemovedResources
        (noSecretClientEnv [ownedObject ''Secret'' ''s'', ownedObject ''ConfigMap'' ''c''])
        (exampleTask [])
     = ((False, Some (Errorf ''no client for Secret'')),
        (exampleTask [])\<lparr>calls :=
           [EvGetObjectsForBundle ''ns'' ''b'',
            EvForGVK \<lparr>Group = [], Version = ''v1'', Kind = ''Secret''\<rparr> ''ns'',
            EvForGVK \<lparr>Group = [], Version = ''v1'', Kind = ''ConfigMap''\<rparr> ''ns'',
            EvDelete \<lparr>Group = [], Version = ''v1'', Kind = ''ConfigMap''\<rparr> ''ns'' ''c''
              (deleteOptionsFor ''uid-c'')]\<rparr>)"
  by (simp add: gc_example_defs)

section \<open>Properties of the selection\<close>





lemma deleteLoop_calls:
  "\<exists>new. fst (deleteLoop env ns xs (cs, fe, r)) = cs @ new
        \<and> set (filter isDelete new) \<subseteq> deleteOf ns ` set xs
        \<and> ((\<forall>cs g. ForGVK env cs g ns = None) \<longrightarrow> filter isDelete new = map (deleteOf ns) xs)"
proof (induction xs arbitrary: cs fe r)
  case Nil
  then show ?case by simp
next
  case (Cons x xs)
  obtain ref uid where x: "x = (ref, uid)" by (cases x)
  let ?cs1 = "cs @ [EvForGVK (fst ref) ns]"
  let ?cs2 = "?cs1 @ [EvDelete (fst ref) ns (snd ref) (deleteOptionsFor uid)]"
  show ?case
  proof (cases "ForGVK env cs (fst ref) ns")
    case (Some e)
    have "\<exists>fe' r'. deleteLoop env ns (x # xs) (cs, fe, r) = deleteLoop env ns xs (?cs1, fe', r')"
      unfolding x using Some by (auto simp: Let_def)
    then obtain fe' r' where
      step: "deleteLoop env ns (x # xs) (cs, fe, r) = deleteLoop env ns xs (?cs1, fe', r')"
      by blast
    from Cons.IH [of ?cs1 fe' r'] obtain new where
      n: "fst (deleteLoop env ns xs (?cs1, fe', r')) = ?cs1 @ new"
         "set (filter isDelete new) \<subseteq> deleteOf ns ` set xs"
      by blast
    have "fst (deleteLoop env ns (x # xs) (cs, fe, r)) = cs @ (EvForGVK (fst ref) ns # new)"
      using step n(1) by simp
    moreover have "set (filter isDelete (EvForGVK (fst ref) ns # new)) \<subseteq> deleteOf ns ` set (x # xs)"
      using n(2) by auto
    moreover have "\<not> (\<forall>cs g. ForGVK env cs g ns = None)" using Some by auto
    ultimately show ?thesis by blast
  next
    case None
    have "\<exists>fe' r'. deleteLoop env ns (x # xs) (cs, fe, r) = deleteLoop env ns xs (?cs2, fe', r')"
      unfolding x using None by (auto simp: Let_def split: option.splits)
    then obtain fe' r' where
      step: "deleteLoop env ns (x # xs) (cs, fe, r) = deleteLoop env ns xs (?cs2, fe', r')"
      by blast
    from Cons.IH [of ?cs2 fe' r'] obtain new where
      n: "fst (deleteLoop env ns xs (?cs2, fe', r')) = ?cs2 @ new"
         "set (filter isDelete new) \<subseteq> deleteOf ns ` set xs"
         "(\<forall>cs g. ForGVK env cs g ns = None) \<longrightarrow> filter isDelete new = map (deleteOf ns) xs"
      by blast
    let ?new = "EvForGVK (fst ref) ns # EvDelete (fst ref) ns (snd ref) (deleteOptionsFor uid) # new"
    have "fst (deleteLoop env ns (x # xs) (cs, fe, r)) = cs @ ?new"
      using step n(1) by simp
    moreover have "set (filter isDelete ?new) \<subseteq> deleteOf ns ` set (x # xs)"
      using n(2) by (auto simp: x deleteOf_def)
    moreover have "(\<forall>cs g. ForGVK env cs g ns = None) \<longrightarrow> filter isDelete ?new = map (deleteOf ns) (x # xs)"
      using n(3) by (simp add: x deleteOf_def)
    ultimately show ?thesis by blast
  qed
qed








section \<open>Properties of the traversal\<close>

lemma observedReadyFrom_append:
  "observedReadyFrom env before (xs @ ys) obj \<longleftrightarrow>
     observedReadyFrom env before xs obj \<or> observedReadyFrom env (before @ xs) ys obj"
  by (induction xs arbitrary: before) auto

lemma createOrUpdate_extends:
  "\<exists>new. calls (snd (createOrUpdate env st spec)) = calls st @ new
        \<and> readyResources (snd (createOrUpdate env st spec)) = readyResources st
        \<and> st_bundle (snd (createOrUpdate env st spec)) = st_bundle st"
  by (auto simp: createOrUpdate_def createResource_def updateResource_def Let_def
           split: option.splits sum.splits)

lemma checkResource_cases:
  "(\<exists>e. checkResource env st res = ((None, False, Some e), st) \<and> evalSpec env st res = Inl e)
   \<or> (\<exists>spec st1 new.
         evalSpec env st res = Inr spec
       \<and> calls st1 = calls st @ new \<and> readyResources st1 = readyResources st
       \<and> st_bundle st1 = st_bundle st
       \<and> ((\<exists>r e. createOrUpdate env st spec = (Inl (r, e), st1)
                \<and> checkResource env st res = ((None, r, Some e), st1))
          \<or> (\<exists>obj. createOrUpdate env st spec = (Inr obj, st1)
                \<and> checkResource env st res =
                    ((if snd (snd (IsReady env (calls st1) obj)) = None \<and> fst (IsReady env (calls st1) obj)
                      then (Some obj, False, None)
                      else (None, snd (IsReady env (calls st1) obj))),
                     st1\<lparr>calls := calls st1 @ [EvIsReady obj]\<rparr>))))"
proof (cases "evalSpec env st res")
  case (Inl e)
  then show ?thesis by (simp add: checkResource_def)
next
  case (Inr spec)
  obtain out st1 where cu: "createOrUpdate env st spec = (out, st1)" by (cases "createOrUpdate env st spec")
  from createOrUpdate_extends [of env st spec] obtain new where
    ext: "calls st1 = calls st @ new" "readyResources st1 = readyResources st"
         "st_bundle st1 = st_bundle st"
    by (auto simp: cu)
  show ?thesis
  proof (cases out)
    case (Inl re)
    then show ?thesis
      using Inr cu ext by (cases re) (auto simp: checkResource_def)
  next
    case (Inr obj)
    then show ?thesis
      using \<open>evalSpec env st res = Inr spec\<close> cu ext
      by (auto simp: checkResource_def Let_def split_beta)
  qed
qed

lemma visitVertices_step:
  assumes "list_all (\<lambda>dependency. readyResources st dependency \<noteq> None) (Edges g v)"
  shows "\<exists>new st1. calls st1 = calls st @ new \<and> st_bundle st1 = st_bundle st
           \<and> (readyResources st1 = readyResources st
                \<or> (\<exists>obj. readyResources st1 = (readyResources st)(v \<mapsto> obj)
                        \<and> observedReadyFrom env (calls st) new obj))
           \<and> ((\<exists>r e. visitVertices env rm g (v # vs) st = (Some (r, e), st1))
                \<or> visitVertices env rm g (v # vs) st = visitVertices env rm g vs st1)"
proof -
  let ?res = "case rm v of Some r \<Rightarrow> r | None \<Rightarrow> zeroResource"
  from checkResource_cases [of env st ?res]
  consider
    (eval) e where "checkResource env st ?res = ((None, False, Some e), st)"
  | (fail) st1 new r e where "calls st1 = calls st @ new" "readyResources st1 = readyResources st"
      "st_bundle st1 = st_bundle st" "checkResource env st ?res = ((None, r, Some e), st1)"
  | (checked) st1 new obj where "calls st1 = calls st @ new" "readyResources st1 = readyResources st"
      "st_bundle st1 = st_bundle st"
      "checkResource env st ?res =
         ((if snd (snd (IsReady env (calls st1) obj)) = None \<and> fst (IsReady env (calls st1) obj)
           then (Some obj, False, None)
           else (None, snd (IsReady env (calls st1) obj))),
          st1\<lparr>calls := calls st1 @ [EvIsReady obj]\<rparr>)"
    by blast
  then show ?thesis
  proof cases
    case eval
    then have "visitVertices env rm g (v # vs) st = (Some (False, e), st)"
      using assms by simp
    then show ?thesis by (intro exI [of _ "[]"] exI [of _ st]) auto
  next
    case fail
    then have "visitVertices env rm g (v # vs) st = (Some (r, e), st1)"
      using assms by simp
    with fail show ?thesis by (intro exI [of _ new] exI [of _ st1]) auto
  next
    case checked
    let ?st2 = "st1\<lparr>calls := calls st1 @ [EvIsReady obj]\<rparr>"
    let ?new = "new @ [EvIsReady obj]"
    obtain rd rr e where ir: "IsReady env (calls st1) obj = (rd, rr, e)"
      by (cases "IsReady env (calls st1) obj") auto
    show ?thesis
    proof (cases "e = None \<and> rd")
      case True
      let ?st3 = "?st2\<lparr>readyResources := (readyResources ?st2)(v \<mapsto> obj)\<rparr>"
      have run: "visitVertices env rm g (v # vs) st = visitVertices env rm g vs ?st3"
        using assms checked(4) True ir by simp
      have obs: "observedReadyFrom env (calls st) ?new obj"
        using True ir checked(1) by (simp add: observedReadyFrom_append)
      show ?thesis
        using run obs checked(1-3)
        by (intro exI [of _ ?new] exI [of _ ?st3]) auto
    next
      case False
      show ?thesis
      proof (cases e)
        case None
        then have run: "visitVertices env rm g (v # vs) st = visitVertices env rm g vs ?st2"
          using assms checked(4) False ir by simp
        show ?thesis
          using run checked(1-3) by (intro exI [of _ ?new] exI [of _ ?st2]) auto
      next
        case (Some e')
        then have run: "visitVertices env rm g (v # vs) st = (Some (rr, e'), ?st2)"
          using assms checked(4) False ir by simp
        show ?thesis
          using run checked(1-3) by (intro exI [of _ ?new] exI [of _ ?st2]) auto
      qed
    qed
  qed
qed

lemma visitVertices_ready:
  "\<exists>new. calls (snd (visitVertices env rm g vs st)) = calls st @ new
        \<and> st_bundle (snd (visitVertices env rm g vs st)) = st_bundle st
        \<and> (\<forall>n obj. readyResources (snd (visitVertices env rm g vs st)) n = Some obj \<longrightarrow>
              readyResources st n = Some obj \<or> observedReadyFrom env (calls st) new obj)"
proof (induction vs arbitrary: st)
  case Nil
  then show ?case by simp
next
  case (Cons v vs)
  show ?case
  proof (cases "list_all (\<lambda>dependency. readyResources st dependency \<noteq> None) (Edges g v)")
    case False
    then have "visitVertices env rm g (v # vs) st = visitVertices env rm g vs st" by simp
    with Cons.IH [of st] show ?thesis by simp
  next
    case True
    from visitVertices_step [OF True, of env rm vs] obtain new st1 where
      s: "calls st1 = calls st @ new" "st_bundle st1 = st_bundle st"
         "readyResources st1 = readyResources st
            \<or> (\<exists>obj. readyResources st1 = (readyResources st)(v \<mapsto> obj)
                    \<and> observedReadyFrom env (calls st) new obj)"
         "(\<exists>r e. visitVertices env rm g (v # vs) st = (Some (r, e), st1))
            \<or> visitVertices env rm g (v # vs) st = visitVertices env rm g vs st1"
      by blast
    have here: "\<forall>n obj. readyResources st1 n = Some obj \<longrightarrow>
                  readyResources st n = Some obj \<or> observedReadyFrom env (calls st) new obj"
      using s(3) by (auto split: if_splits)
    from s(4) show ?thesis
    proof
      assume "\<exists>r e. visitVertices env rm g (v # vs) st = (Some (r, e), st1)"
      then obtain r e where stop: "visitVertices env rm g (v # vs) st = (Some (r, e), st1)"
        by blast
      show ?thesis
        unfolding stop using s(1,2) here by (intro exI [of _ new]) simp
    next
      assume run: "visitVertices env rm g (v # vs) st = visitVertices env rm g vs st1"
      from Cons.IH [of st1] obtain new2 where
        i: "calls (snd (visitVertices env rm g vs st1)) = calls st1 @ new2"
           "st_bundle (snd (visitVertices env rm g vs st1)) = st_bundle st1"
           "\<forall>n obj. readyResources (snd (visitVertices env rm g vs st1)) n = Some obj \<longrightarrow>
              readyResources st1 n = Some obj \<or> observedReadyFrom env (calls st1) new2 obj"
        by blast
      have "readyResources st n = Some obj \<or> observedReadyFrom env (calls st) (new @ new2) obj"
        if "readyResources (snd (visitVertices env rm g vs st1)) n = Some obj" for n obj
      proof -
        from i(3) that have "readyResources st1 n = Some obj
            \<or> observedReadyFrom env (calls st1) new2 obj" by blast
        then show ?thesis
          using here by (auto simp: observedReadyFrom_append s(1))
      qed
      then show ?thesis
        unfolding run using i(1,2) s(1,2) by (intro exI [of _ "new @ new2"]) simp
    qed
  qed
qed

lemma deleteRemovedResources_extends:
  "\<exists>new. calls (snd (deleteRemovedResources env st)) = calls st @ new
        \<and> readyResources (snd (deleteRemovedResources env st)) = readyResources st"
proof (cases "GetObjectsForBundle env (calls st) (bundle_Namespace (st_bundle st))
                (bundle_Name (st_bundle st))")
  case (Inl e)
  then show ?thesis by (simp add: deleteRemovedResources_def Let_def)
next
  case (Inr objs)
  let ?cs1 = "calls st @ [EvGetObjectsForBundle (bundle_Namespace (st_bundle st))
                              (bundle_Name (st_bundle st))]"
  let ?todo = "mapRange env (removeDeclared (bundle_Resources (st_bundle st))
                               (collectExisting (st_bundle st) objs []))"
  obtain new where "fst (deleteLoop env (bundle_Namespace (st_bundle st)) ?todo (?cs1, None, True))
                      = ?cs1 @ new"
    using deleteLoop_calls [of env "bundle_Namespace (st_bundle st)" ?todo ?cs1 None True] by blast
  then show ?thesis
    using Inr by (simp add: deleteRemovedResources_def Let_def split_beta)
qed

lemma process_ready:
  "\<exists>new. calls (snd (process env st)) = calls st @ new
        \<and> (\<forall>n obj. readyResources (snd (process env st)) n = Some obj \<longrightarrow>
              readyResources st n = Some obj \<or> observedReadyFrom env (calls st) new obj)"
proof (cases "buildResourceMap Map.empty (bundle_Resources (st_bundle st))")
  case (Inl e)
  then show ?thesis by (simp add: process_def)
next
  case (Inr rm)
  show ?thesis
  proof (cases "sortBundle (st_bundle st)")
    case (Inl e)
    then show ?thesis using Inr by (simp add: process_def)
  next
    case sorted: (Inr gs)
    obtain g vs where gs: "gs = (g, vs)" by (cases gs)
    let ?st0 = "st\<lparr>readyResources := Map.empty\<rparr>"
    obtain out st1 where v: "visitVertices env rm g vs ?st0 = (out, st1)"
      by (cases "visitVertices env rm g vs ?st0")
    from visitVertices_ready [of env rm g vs ?st0] obtain new where
      n: "calls st1 = calls st @ new"
         "\<forall>n obj. readyResources st1 n = Some obj \<longrightarrow> observedReadyFrom env (calls st) new obj"
      by (auto simp: v)
    show ?thesis
    proof (cases out)
      case (Some re)
      then have "snd (process env st) = st1"
        using Inr sorted gs v by (cases re) (simp add: process_def)
      then show ?thesis using n by auto
    next
      case None
      from deleteRemovedResources_extends [of env st1] obtain more where
        m: "calls (snd (deleteRemovedResources env st1)) = calls st1 @ more"
           "readyResources (snd (deleteRemovedResources env st1)) = readyResources st1"
        by blast
      have "snd (process env st) = snd (deleteRemovedResources env st1)"
        using Inr sorted gs v None
        by (simp add: process_def split: prod.splits option.splits)
      then show ?thesis
        using n m by (intro exI [of _ "new @ more"]) (auto simp: observedReadyFrom_append)
    qed
  qed
qed

lemma checkResource_ready:
  assumes "checkResource env st res = ((Some obj, r, e), st1)"
  shows "\<exists>spec st0. evalSpec env st res = Inr spec
           \<and> createOrUpdate env st spec = (Inr obj, st0)
           \<and> fst (IsReady env (calls st0) obj) \<and> snd (snd (IsReady env (calls st0) obj)) = None
           \<and> st1 = st0\<lparr>calls := calls st0 @ [EvIsReady obj]\<rparr>"
  using checkResource_cases [of env st res] assms
  by (auto split: if_splits)

lemma checkedWithin_here:
  assumes "list_all (\<lambda>dependency. readyResources st dependency \<noteq> None) (Edges g n)"
    and "checkResource env st (case rm n of Some r \<Rightarrow> r | None \<Rightarrow> zeroResource)
          = ((Some obj, False, None), st2)"
    and "finalCalls = calls st2 @ post"
  shows "checkedWithin env rm g st finalCalls n obj"
  unfolding checkedWithin_def
  using assms by (intro exI [of _ st] exI [of _ st2] exI [of _ "[]"] exI [of _ post]) simp

lemma checkedWithin_shift:
  assumes "checkedWithin env rm g st1 finalCalls n obj"
    and "calls st1 = calls st @ new" "st_bundle st1 = st_bundle st"
  shows "checkedWithin env rm g st finalCalls n obj"
proof -
  from assms(1) obtain st0 st1' pre post where
    l: "calls st0 = calls st1 @ pre" "st_bundle st0 = st_bundle st1"
       "finalCalls = calls st1' @ post"
       "list_all (\<lambda>dependency. readyResources st0 dependency \<noteq> None) (Edges g n)"
       "checkResource env st0 (case rm n of Some r \<Rightarrow> r | None \<Rightarrow> zeroResource)
          = ((Some obj, False, None), st1')"
    unfolding checkedWithin_def by blast
  show ?thesis
    unfolding checkedWithin_def
    using l assms(2,3)
    by (intro exI [of _ st0] exI [of _ st1'] exI [of _ "new @ pre"] exI [of _ post]) simp
qed

lemma visitVertices_checks_step:
  assumes "list_all (\<lambda>dependency. readyResources st dependency \<noteq> None) (Edges g v)"
  shows "\<exists>new st1. calls st1 = calls st @ new \<and> st_bundle st1 = st_bundle st
           \<and> (readyResources st1 = readyResources st
                \<or> (\<exists>obj st2. readyResources st1 = (readyResources st)(v \<mapsto> obj)
                        \<and> observedReadyFrom env (calls st) new obj
                        \<and> checkResource env st (case rm v of Some r \<Rightarrow> r | None \<Rightarrow> zeroResource)
                            = ((Some obj, False, None), st2)
                        \<and> calls st2 = calls st1))
           \<and> ((\<exists>r e. visitVertices env rm g (v # vs) st = (Some (r, e), st1))
                \<or> visitVertices env rm g (v # vs) st = visitVertices env rm g vs st1)"
proof -
  let ?res = "case rm v of Some r \<Rightarrow> r | None \<Rightarrow> zeroResource"
  from checkResource_cases [of env st ?res]
  consider
    (eval) e where "checkResource env st ?res = ((None, False, Some e), st)"
  | (fail) st1 new r e where "calls st1 = calls st @ new" "readyResources st1 = readyResources st"
      "st_bundle st1 = st_bundle st" "checkResource env st ?res = ((None, r, Some e), st1)"
  | (checked) st1 new obj where "calls st1 = calls st @ new" "readyResources st1 = readyResources st"
      "st_bundle st1 = st_bundle st"
      "checkResource env st ?res =
         ((if snd (snd (IsReady env (calls st1) obj)) = None \<and> fst (IsReady env (calls st1) obj)
           then (Some obj, False, None)
           else (None, snd (IsReady env (calls st1) obj))),
          st1\<lparr>calls := calls st1 @ [EvIsReady obj]\<rparr>)"
    by blast
  then show ?thesis
  proof cases
    case eval
    then have "visitVertices env rm g (v # vs) st = (Some (False, e), st)"
      using assms by simp
    then show ?thesis by (intro exI [of _ "[]"] exI [of _ st]) auto
  next
    case fail
    then have "visitVertices env rm g (v # vs) st = (Some (r, e), st1)"
      using assms by simp
    with fail show ?thesis by (intro exI [of _ new] exI [of _ st1]) auto
  next
    case checked
    let ?st2 = "st1\<lparr>calls := calls st1 @ [EvIsReady obj]\<rparr>"
    let ?new = "new @ [EvIsReady obj]"
    obtain rd rr e where ir: "IsReady env (calls st1) obj = (rd, rr, e)"
      by (cases "IsReady env (calls st1) obj") auto
    show ?thesis
    proof (cases "e = None \<and> rd")
      case True
      let ?st3 = "?st2\<lparr>readyResources := (readyResources ?st2)(v \<mapsto> obj)\<rparr>"
      have cr: "checkResource env st ?res = ((Some obj, False, None), ?st2)"
        using checked(4) True ir by simp
      have run: "visitVertices env rm g (v # vs) st = visitVertices env rm g vs ?st3"
        using assms cr by simp
      have obs: "observedReadyFrom env (calls st) ?new obj"
        using True ir checked(1) by (simp add: observedReadyFrom_append)
      have "readyResources ?st3 = (readyResources st)(v \<mapsto> obj)
              \<and> observedReadyFrom env (calls st) ?new obj
              \<and> checkResource env st ?res = ((Some obj, False, None), ?st2)
              \<and> calls ?st2 = calls ?st3"
        using obs cr checked(2) by simp
      then have "\<exists>obj st2. readyResources ?st3 = (readyResources st)(v \<mapsto> obj)
              \<and> observedReadyFrom env (calls st) ?new obj
              \<and> checkResource env st ?res = ((Some obj, False, None), st2)
              \<and> calls st2 = calls ?st3"
        by blast
      moreover have "calls ?st3 = calls st @ ?new" "st_bundle ?st3 = st_bundle st"
        using checked(1,3) by simp_all
      ultimately show ?thesis
        using run by blast
    next
      case False
      show ?thesis
      proof (cases e)
        case None
        then have run: "visitVertices env rm g (v # vs) st = visitVertices env rm g vs ?st2"
          using assms checked(4) False ir by simp
        show ?thesis
          using run checked(1-3) by (intro exI [of _ ?new] exI [of _ ?st2]) auto
      next
        case (Some e')
        then have run: "visitVertices env rm g (v # vs) st = (Some (rr, e'), ?st2)"
          using assms checked(4) False ir by simp
        show ?thesis
          using run checked(1-3) by (intro exI [of _ ?new] exI [of _ ?st2]) auto
      qed
    qed
  qed
qed

lemma visitVertices_checked:
  "\<exists>new. calls (snd (visitVertices env rm g vs st)) = calls st @ new
        \<and> st_bundle (snd (visitVertices env rm g vs st)) = st_bundle st
        \<and> (\<forall>n obj. readyResources (snd (visitVertices env rm g vs st)) n = Some obj \<longrightarrow>
              readyResources st n = Some obj
              \<or> (n \<in> set vs \<and> observedReadyFrom env (calls st) new obj
                  \<and> checkedWithin env rm g st (calls (snd (visitVertices env rm g vs st))) n obj))"
proof (induction vs arbitrary: st)
  case Nil
  then show ?case by simp
next
  case (Cons v vs)
  show ?case
  proof (cases "list_all (\<lambda>dependency. readyResources st dependency \<noteq> None) (Edges g v)")
    case False
    then have run: "visitVertices env rm g (v # vs) st = visitVertices env rm g vs st" by simp
    from Cons.IH [of st] obtain new where
      i: "calls (snd (visitVertices env rm g vs st)) = calls st @ new"
         "st_bundle (snd (visitVertices env rm g vs st)) = st_bundle st"
         "\<forall>n obj. readyResources (snd (visitVertices env rm g vs st)) n = Some obj \<longrightarrow>
              readyResources st n = Some obj
              \<or> (n \<in> set vs \<and> observedReadyFrom env (calls st) new obj
                  \<and> checkedWithin env rm g st (calls (snd (visitVertices env rm g vs st))) n obj)"
      by blast
    from i(3) have "\<forall>n obj. readyResources (snd (visitVertices env rm g vs st)) n = Some obj \<longrightarrow>
              readyResources st n = Some obj
              \<or> (n \<in> set (v # vs) \<and> observedReadyFrom env (calls st) new obj
                  \<and> checkedWithin env rm g st (calls (snd (visitVertices env rm g vs st))) n obj)"
      by auto
    with i(1,2) show ?thesis unfolding run by blast
  next
    case True
    from visitVertices_checks_step [OF True, of env rm vs] obtain new st1 where
      s: "calls st1 = calls st @ new" "st_bundle st1 = st_bundle st"
         "readyResources st1 = readyResources st
            \<or> (\<exists>obj st2. readyResources st1 = (readyResources st)(v \<mapsto> obj)
                    \<and> observedReadyFrom env (calls st) new obj
                    \<and> checkResource env st (case rm v of Some r \<Rightarrow> r | None \<Rightarrow> zeroResource)
                        = ((Some obj, False, None), st2)
                    \<and> calls st2 = calls st1)"
         "(\<exists>r e. visitVertices env rm g (v # vs) st = (Some (r, e), st1))
            \<or> visitVertices env rm g (v # vs) st = visitVertices env rm g vs st1"
      by blast
    have here: "readyResources st n = Some obj
        \<or> (n = v \<and> observedReadyFrom env (calls st) new obj
            \<and> checkedWithin env rm g st (calls st1 @ post) n obj)"
      if "readyResources st1 n = Some obj" for n obj post
    proof -
      from s(3) show ?thesis
      proof
        assume "readyResources st1 = readyResources st"
        with that show ?thesis by simp
      next
        assume "\<exists>obj st2. readyResources st1 = (readyResources st)(v \<mapsto> obj)
                    \<and> observedReadyFrom env (calls st) new obj
                    \<and> checkResource env st (case rm v of Some r \<Rightarrow> r | None \<Rightarrow> zeroResource)
                        = ((Some obj, False, None), st2)
                    \<and> calls st2 = calls st1"
        then obtain obj' st2 where
          o: "readyResources st1 = (readyResources st)(v \<mapsto> obj')"
             "observedReadyFrom env (calls st) new obj'"
             "checkResource env st (case rm v of Some r \<Rightarrow> r | None \<Rightarrow> zeroResource)
                        = ((Some obj', False, None), st2)"
             "calls st2 = calls st1"
          by blast
        show ?thesis
        proof (cases "n = v")
          case False
          with that o(1) show ?thesis by simp
        next
          case nv: True
          with that o(1) have eq: "obj' = obj" by simp
          have "checkedWithin env rm g st (calls st1 @ post) n obj"
            using True o(3,4) unfolding nv eq [symmetric]
            by (intro checkedWithin_here [where ?st2.0 = st2 and post = post]) simp_all
          then show ?thesis using nv o(2) eq by simp
        qed
      qed
    qed
    from s(4) show ?thesis
    proof
      assume "\<exists>r e. visitVertices env rm g (v # vs) st = (Some (r, e), st1)"
      then obtain r e where stop: "visitVertices env rm g (v # vs) st = (Some (r, e), st1)"
        by blast
      have "\<forall>n obj. readyResources st1 n = Some obj \<longrightarrow>
              readyResources st n = Some obj
              \<or> (n \<in> set (v # vs) \<and> observedReadyFrom env (calls st) new obj
                  \<and> checkedWithin env rm g st (calls st1) n obj)"
        using here [where post = "[]"] by fastforce
      then show ?thesis
        unfolding stop using s(1,2) by (intro exI [of _ new]) simp
    next
      assume run: "visitVertices env rm g (v # vs) st = visitVertices env rm g vs st1"
      let ?fin = "snd (visitVertices env rm g vs st1)"
      from Cons.IH [of st1] obtain new2 where
        i: "calls ?fin = calls st1 @ new2"
           "st_bundle ?fin = st_bundle st1"
           "\<forall>n obj. readyResources ?fin n = Some obj \<longrightarrow>
              readyResources st1 n = Some obj
              \<or> (n \<in> set vs \<and> observedReadyFrom env (calls st1) new2 obj
                  \<and> checkedWithin env rm g st1 (calls ?fin) n obj)"
        by blast
      have "readyResources st n = Some obj
              \<or> (n \<in> set (v # vs) \<and> observedReadyFrom env (calls st) (new @ new2) obj
                  \<and> checkedWithin env rm g st (calls ?fin) n obj)"
        if "readyResources ?fin n = Some obj" for n obj
      proof -
        from i(3) that consider
            (old) "readyResources st1 n = Some obj"
          | (later) "n \<in> set vs" "observedReadyFrom env (calls st1) new2 obj"
              "checkedWithin env rm g st1 (calls ?fin) n obj"
          by blast
        then show ?thesis
        proof cases
          case old
          from here [OF old, of new2] show ?thesis
            by (auto simp: observedReadyFrom_append i(1))
        next
          case later
          have "checkedWithin env rm g st (calls ?fin) n obj"
            by (rule checkedWithin_shift [OF later(3) s(1,2)])
          then show ?thesis
            using later(1,2) by (simp add: observedReadyFrom_append s(1))
        qed
      qed
      then show ?thesis
        unfolding run using i(1,2) s(1,2) by (intro exI [of _ "new @ new2"]) simp
    qed
  qed
qed

section \<open>Properties of the graph\<close>

lemma buildResourceMap_fails:
  "\<not> distinct (map res_Name rs) \<or> (\<exists>r\<in>set rs. m (res_Name r) \<noteq> None) \<Longrightarrow>
     \<exists>e. buildResourceMap m rs = Inl e"
proof (induction rs arbitrary: m)
  case Nil
  then show ?case by simp
next
  case (Cons r rs)
  show ?case
  proof (cases "m (res_Name r) = None")
    case False
    then show ?thesis by auto
  next
    case True
    have "\<not> distinct (map res_Name rs)
            \<or> (\<exists>r'\<in>set rs. (m(res_Name r \<mapsto> r)) (res_Name r') \<noteq> None)"
      using Cons.prems True by auto
    then have "\<exists>e. buildResourceMap (m(res_Name r \<mapsto> r)) rs = Inl e"
      by (rule Cons.IH [of "m(res_Name r \<mapsto> r)"])
    then show ?thesis using True by simp
  qed
qed

lemma vertices_fold_AddVertex:
  "set (orderedVertices (fold (\<lambda>res g. AddVertex g (res_Name res)) rs g)) =
     set (orderedVertices g) \<union> res_Name ` set rs"
  by (induction rs arbitrary: g) (auto simp: AddVertex_def)

lemma edges_fold_AddVertex:
  "vertexEdges (fold (\<lambda>res g. AddVertex g (res_Name res)) rs g) = vertexEdges g"
  by (induction rs arbitrary: g) (auto simp: AddVertex_def)

lemma addEdgesOf_Inr:
  "addEdgesOf g n ds = Inr g' \<Longrightarrow>
     orderedVertices g' = orderedVertices g
     \<and> (\<forall>v. set (vertexEdges g' v) = set (vertexEdges g v) \<union> (if v = n then set ds else {}))
     \<and> (ds \<noteq> [] \<longrightarrow> n \<in> set (orderedVertices g))"
proof (induction ds arbitrary: g)
  case Nil
  then show ?case by simp
next
  case (Cons d ds)
  from Cons.prems obtain g1 where a: "AddEdge g n d = Inr g1" and r: "addEdgesOf g1 n ds = Inr g'"
    by (auto split: sum.splits)
  from a have g1: "orderedVertices g1 = orderedVertices g" "n \<in> set (orderedVertices g)"
    "vertexEdges g1 = (vertexEdges g)(n := vertexEdges g n @ [d])"
    by (auto simp: AddEdge_def split: if_splits)
  from Cons.IH [OF r] show ?case
    by (auto simp: g1)
qed

lemma addEdgesOf_fails:
  "\<exists>d\<in>set ds. d \<notin> set (orderedVertices g) \<Longrightarrow> \<exists>e. addEdgesOf g n ds = Inl e"
proof (induction ds arbitrary: g)
  case Nil
  then show ?case by simp
next
  case (Cons d ds)
  show ?case
  proof (cases "AddEdge g n d")
    case (Inl e)
    then show ?thesis by simp
  next
    case (Inr g1)
    then have "orderedVertices g1 = orderedVertices g" "d \<in> set (orderedVertices g)"
      by (auto simp: AddEdge_def split: if_splits)
    with Cons.prems have "\<exists>d\<in>set ds. d \<notin> set (orderedVertices g1)" by auto
    from Cons.IH [OF this] show ?thesis using Inr by simp
  qed
qed

lemma addAllEdges_Inr:
  "addAllEdges g rs = Inr g' \<Longrightarrow>
     orderedVertices g' = orderedVertices g
     \<and> (\<forall>v. set (vertexEdges g' v) = set (vertexEdges g v) \<union> {d. (v, d) \<in> dependsOnRel rs})
     \<and> (\<forall>(v, d)\<in>dependsOnRel rs. v \<in> set (orderedVertices g))"
proof (induction rs arbitrary: g)
  case Nil
  then show ?case by (simp add: dependsOnRel_def)
next
  case (Cons r rs)
  from Cons.prems obtain g1 where
    a: "addEdgesOf g (res_Name r) (res_DependsOn r) = Inr g1" and b: "addAllEdges g1 rs = Inr g'"
    by (auto split: sum.splits)
  note f = addEdgesOf_Inr [OF a]
  note i = Cons.IH [OF b]
  have rel: "dependsOnRel (r # rs) = {(res_Name r, d) | d. d \<in> set (res_DependsOn r)} \<union> dependsOnRel rs"
    by (auto simp: dependsOnRel_def)
  show ?case
    using f i unfolding rel by (auto split: if_splits)
qed

lemma addAllEdges_fails:
  "\<exists>(n, d)\<in>dependsOnRel rs. d \<notin> set (orderedVertices g) \<Longrightarrow> \<exists>e. addAllEdges g rs = Inl e"
proof (induction rs arbitrary: g)
  case Nil
  then show ?case by (simp add: dependsOnRel_def)
next
  case (Cons r rs)
  show ?case
  proof (cases "addEdgesOf g (res_Name r) (res_DependsOn r)")
    case (Inl e)
    then show ?thesis by simp
  next
    case (Inr g1)
    have v: "orderedVertices g1 = orderedVertices g"
      using addEdgesOf_Inr [OF Inr] by simp
    have "\<not> (\<exists>d\<in>set (res_DependsOn r). d \<notin> set (orderedVertices g))"
      using addEdgesOf_fails [of "res_DependsOn r" g "res_Name r"] Inr by auto
    with Cons.prems have "\<exists>(n, d)\<in>dependsOnRel rs. d \<notin> set (orderedVertices g1)"
      by (auto simp: dependsOnRel_def v)
    from Cons.IH [OF this] show ?thesis using Inr by simp
  qed
qed

lemma cycle_successor:
  assumes "(v, v) \<in> E\<^sup>+"
  shows "\<exists>w. (v, w) \<in> E \<and> (w, w) \<in> E\<^sup>+"
proof -
  from tranclD [OF assms] obtain w where w: "(v, w) \<in> E" "(w, v) \<in> E\<^sup>*" by blast
  then have "(w, w) \<in> E\<^sup>+" by (rule_tac rtrancl_into_trancl1)
  with w show ?thesis by blast
qed

lemma topologicalLoop_cycle:
  fixes g
  defines "E \<equiv> {(v, w). w \<in> set (vertexEdges g v)}"
  assumes c: "(c, c) \<in> E\<^sup>+" "c \<in> set (orderedVertices g)"
    and acc: "\<forall>v\<in>set acc. (v, v) \<notin> E\<^sup>+"
  shows "\<exists>e. topologicalLoop k g acc = Inl e"
  using acc
proof (induction k arbitrary: acc)
  case 0
  have "c \<notin> set acc" using 0 c(1) by auto
  with c(2) show ?case by auto
next
  case (Suc k)
  have stop: "\<not> set (orderedVertices g) \<subseteq> set acc" using Suc.prems c by auto
  show ?case
  proof (cases "find (\<lambda>v. v \<notin> set acc \<and> set (Edges g v) \<subseteq> set acc) (orderedVertices g)")
    case None
    then show ?thesis using stop by simp
  next
    case (Some v)
    then have v: "set (Edges g v) \<subseteq> set acc"
      by (auto simp: find_Some_iff)
    have "(v, v) \<notin> E\<^sup>+"
    proof
      assume "(v, v) \<in> E\<^sup>+"
      from cycle_successor [OF this] obtain w where "(v, w) \<in> E" "(w, w) \<in> E\<^sup>+" by blast
      then have "w \<in> set acc" "(w, w) \<in> E\<^sup>+" using v by (auto simp: E_def Edges_def)
      with Suc.prems show False by blast
    qed
    with Suc.prems have "\<forall>u\<in>set (acc @ [v]). (u, u) \<notin> E\<^sup>+" by auto
    from Suc.IH [OF this] show ?thesis using Some by simp
  qed
qed

lemma sortBundle_cycle:
  assumes "(c, c) \<in> (dependsOnRel (bundle_Resources b))\<^sup>+"
  shows "\<exists>e. sortBundle b = Inl e"
proof -
  let ?g = "fold (\<lambda>res g. AddVertex g (res_Name res)) (bundle_Resources b) NewGraph"
  show ?thesis
  proof (cases "addAllEdges ?g (bundle_Resources b)")
    case (Inl e)
    then show ?thesis by (simp add: sortBundle_def)
  next
    case (Inr g')
    note e = addAllEdges_Inr [OF Inr]
    let ?E = "{(v, w). w \<in> set (vertexEdges g' v)}"
    have "dependsOnRel (bundle_Resources b) \<subseteq> ?E" using e by auto
    then have cyc: "(c, c) \<in> ?E\<^sup>+" using assms trancl_mono by blast
    from tranclD [OF assms] obtain d where "(c, d) \<in> dependsOnRel (bundle_Resources b)" by blast
    then have "c \<in> set (orderedVertices g')" using e by auto
    from topologicalLoop_cycle [OF cyc this, of "[]" "length (orderedVertices g')"]
    obtain err where "TopologicalSort g' = Inl err"
      by (auto simp: TopologicalSort_def)
    then show ?thesis using Inr by (simp add: sortBundle_def)
  qed
qed

lemma sortBundle_dangling:
  assumes "\<exists>(n, d)\<in>dependsOnRel (bundle_Resources b). d \<notin> set (map res_Name (bundle_Resources b))"
  shows "\<exists>e. sortBundle b = Inl e"
proof -
  let ?g = "fold (\<lambda>res g. AddVertex g (res_Name res)) (bundle_Resources b) NewGraph"
  have "set (orderedVertices ?g) = res_Name ` set (bundle_Resources b)"
    by (simp add: vertices_fold_AddVertex NewGraph_def)
  with assms have "\<exists>(n, d)\<in>dependsOnRel (bundle_Resources b). d \<notin> set (orderedVertices ?g)"
    by simp
  from addAllEdges_fails [OF this] show ?thesis
    by (auto simp: sortBundle_def)
qed

lemma process_structural:
  assumes "(\<exists>e. buildResourceMap Map.empty (bundle_Resources (st_bundle st)) = Inl e)
           \<or> (\<exists>e. sortBundle (st_bundle st) = Inl e)"
  shows "\<exists>e. process env st = ((False, Some e), st)"
  using assms by (auto simp: process_def split: sum.splits)

text \<open>
  C7. \<^verbatim>\<open>process\<close> fails terminally, with retriable false and an error, before it visits a
  vertex, when two resources of the Bundle have the same name, or when building or sorting
  the graph fails because of a cycle of \<^verbatim>\<open>dependsOn\<close> or of a \<^verbatim>\<open>dependsOn\<close> entry that
  names no resource of the Bundle; the sync task is left as it was, so no create, update or
  delete call is made.
\<close>

theorem process_fails_terminally:
  fixes env st
  defines "rs \<equiv> bundle_Resources (st_bundle st)"
  shows "(hasDuplicateNames rs \<or> hasDanglingDependsOn rs \<or> hasCycle rs \<longrightarrow>
            (\<exists>e. process env st = ((False, Some e), st)))
         \<and> (\<forall>e. sortBundle (st_bundle st) = Inl e \<longrightarrow>
               (\<exists>e'. process env st = ((False, Some e'), st)))"
proof (intro conjI impI allI)
  assume "hasDuplicateNames rs \<or> hasDanglingDependsOn rs \<or> hasCycle rs"
  then consider (dup) "hasDuplicateNames rs" | (dangling) "hasDanglingDependsOn rs"
    | (cycle) "hasCycle rs" by blast
  then have "(\<exists>e. buildResourceMap Map.empty rs = Inl e) \<or> (\<exists>e. sortBundle (st_bundle st) = Inl e)"
  proof cases
    case dup
    then show ?thesis
      using buildResourceMap_fails [of rs Map.empty] by (simp add: hasDuplicateNames_def)
  next
    case dangling
    then show ?thesis
      using sortBundle_dangling [of "st_bundle st"]
      unfolding hasDanglingDependsOn_def rs_def by blast
  next
    case cycle
    then show ?thesis
      using sortBundle_cycle [of _ "st_bundle st"] unfolding hasCycle_def rs_def by blast
  qed
  then show "\<exists>e. process env st = ((False, Some e), st)"
    unfolding rs_def by (rule process_structural)
next
  fix e assume "sortBundle (st_bundle st) = Inl e"
  then show "\<exists>e'. process env st = ((False, Some e'), st)"
    by (intro process_structural) blast
qed

theorem process_fails_terminally_witness:
  "hasDuplicateNames duplicateResources
   \<and> process okEnv (exampleTask duplicateResources)
       = ((False, Some (Errorf ''bundle contains two resources with the same name a'')),
          exampleTask duplicateResources)
   \<and> hasDanglingDependsOn danglingResources
   \<and> process okEnv (exampleTask danglingResources)
       = ((False, Some (Errorf ''vertex x not found'')), exampleTask danglingResources)
   \<and> hasCycle cycleResources
   \<and> process okEnv (exampleTask cycleResources)
       = ((False, Some (Errorf ''cycle error'')), exampleTask cycleResources)"
proof -
  have dup: "hasDuplicateNames duplicateResources"
    by (simp add: hasDuplicateNames_def duplicateResources_def exampleResource_def)
  have "(''a'', ''x'') \<in> dependsOnRel danglingResources"
    by (simp add: dependsOnRel_def danglingResources_def exampleResource_def)
  moreover have "''x'' \<notin> set (map res_Name danglingResources)"
    by (simp add: danglingResources_def exampleResource_def)
  ultimately have dangling: "hasDanglingDependsOn danglingResources"
    unfolding hasDanglingDependsOn_def by blast
  have "(''a'', ''b'') \<in> dependsOnRel cycleResources" "(''b'', ''a'') \<in> dependsOnRel cycleResources"
    by (simp_all add: dependsOnRel_def cycleResources_def exampleResource_def)
  then have "(''a'', ''a'') \<in> (dependsOnRel cycleResources)\<^sup>+"
    by (rule trancl_into_trancl [OF r_into_trancl])
  then have cycle: "hasCycle cycleResources"
    unfolding hasCycle_def by blast
  have r1: "bundle_Resources (st_bundle (exampleTask rs)) = rs" for rs
    by (simp add: exampleTask_def exampleBundle_def)
  from process_fails_terminally [where env = okEnv and st = "exampleTask duplicateResources"] dup
  have p1: "\<exists>e. process okEnv (exampleTask duplicateResources)
                 = ((False, Some e), exampleTask duplicateResources)"
    by (simp add: r1)
  from process_fails_terminally [where env = okEnv and st = "exampleTask danglingResources"] dangling
  have p2: "\<exists>e. process okEnv (exampleTask danglingResources)
                 = ((False, Some e), exampleTask danglingResources)"
    by (simp add: r1)
  from process_fails_terminally [where env = okEnv and st = "exampleTask cycleResources"] cycle
  have p3: "\<exists>e. process okEnv (exampleTask cycleResources)
                 = ((False, Some e), exampleTask cycleResources)"
    by (simp add: r1)
  have e1: "fst (process okEnv (exampleTask duplicateResources))
       = (False, Some (Errorf ''bundle contains two resources with the same name a''))"
    by (simp add: process_def duplicateResources_def exampleResource_def exampleTask_def
          exampleBundle_def)
  have e2: "fst (process okEnv (exampleTask danglingResources))
       = (False, Some (Errorf ''vertex x not found''))"
    by (simp add: process_def sortBundle_def AddVertex_def AddEdge_def NewGraph_def
          danglingResources_def exampleResource_def exampleTask_def exampleBundle_def)
  have e3: "fst (process okEnv (exampleTask cycleResources))
       = (False, Some (Errorf ''cycle error''))"
    by (simp add: process_def sortBundle_def AddVertex_def AddEdge_def NewGraph_def
          TopologicalSort_def Edges_def
          cycleResources_def exampleResource_def exampleTask_def exampleBundle_def)
  show ?thesis
    using dup dangling cycle p1 p2 p3 e1 e2 e3 by auto
qed

section \<open>Properties of the ready set\<close>

lemma checkedWithin_extend:
  assumes "checkedWithin env rm g st finalCalls n obj"
  shows "checkedWithin env rm g st (finalCalls @ extra) n obj"
proof -
  from assms obtain st0 st1 pre post where
    l: "calls st0 = calls st @ pre" "st_bundle st0 = st_bundle st"
       "finalCalls = calls st1 @ post"
       "list_all (\<lambda>dependency. readyResources st0 dependency \<noteq> None) (Edges g n)"
       "checkResource env st0 (case rm n of Some r \<Rightarrow> r | None \<Rightarrow> zeroResource)
          = ((Some obj, False, None), st1)"
    unfolding checkedWithin_def by blast
  show ?thesis
    unfolding checkedWithin_def
    using l by (intro exI [of _ st0] exI [of _ st1] exI [of _ pre] exI [of _ "post @ extra"]) simp
qed

lemma buildResourceMap_Inr:
  "buildResourceMap m rs = Inr rm \<Longrightarrow>
     (\<forall>r\<in>set rs. rm (res_Name r) = Some r) \<and> (\<forall>n. n \<notin> res_Name ` set rs \<longrightarrow> rm n = m n)"
proof (induction rs arbitrary: m)
  case Nil
  then show ?case by simp
next
  case (Cons r rs)
  from Cons.prems have free: "m (res_Name r) = None"
    and rest: "buildResourceMap (m(res_Name r \<mapsto> r)) rs = Inr rm"
    by (auto split: if_splits)
  have fresh: "res_Name r \<notin> res_Name ` set rs"
  proof
    assume "res_Name r \<in> res_Name ` set rs"
    then have "\<exists>r'\<in>set rs. (m(res_Name r \<mapsto> r)) (res_Name r') \<noteq> None" by auto
    then have "\<exists>e. buildResourceMap (m(res_Name r \<mapsto> r)) rs = Inl e"
      by (intro buildResourceMap_fails) blast
    with rest show False by simp
  qed
  from Cons.IH [OF rest] have
    i: "\<forall>r'\<in>set rs. rm (res_Name r') = Some r'"
       "\<forall>n. n \<notin> res_Name ` set rs \<longrightarrow> rm n = (m(res_Name r \<mapsto> r)) n"
    by blast+
  from i(2) fresh have "rm (res_Name r) = Some r" by simp
  with i show ?case by auto
qed

lemma topologicalLoop_vertices:
  "topologicalLoop k g acc = Inr vs \<Longrightarrow> set acc \<subseteq> set (orderedVertices g) \<Longrightarrow>
     set vs \<subseteq> set (orderedVertices g)"
proof (induction k arbitrary: acc)
  case 0
  then show ?case by (auto split: if_splits)
next
  case (Suc k)
  show ?case
  proof (cases "find (\<lambda>v. v \<notin> set acc \<and> set (Edges g v) \<subseteq> set acc) (orderedVertices g)")
    case None
    with Suc.prems show ?thesis by (auto split: if_splits)
  next
    case (Some v)
    then have "v \<in> set (orderedVertices g)"
      by (auto simp: find_Some_iff)
    with Suc.prems(2) have "set (acc @ [v]) \<subseteq> set (orderedVertices g)" by simp
    moreover have "topologicalLoop k g (acc @ [v]) = Inr vs"
      using Suc.prems(1) Some by simp
    ultimately show ?thesis by (rule Suc.IH [rotated])
  qed
qed

lemma sortBundle_vertices:
  assumes "sortBundle b = Inr (g, vs)"
  shows "set vs \<subseteq> res_Name ` set (bundle_Resources b)"
proof -
  let ?g = "fold (\<lambda>res g. AddVertex g (res_Name res)) (bundle_Resources b) NewGraph"
  from assms have e: "addAllEdges ?g (bundle_Resources b) = Inr g" and t: "TopologicalSort g = Inr vs"
    by (auto simp: sortBundle_def split: sum.splits)
  have "set (orderedVertices g) = res_Name ` set (bundle_Resources b)"
    using addAllEdges_Inr [OF e] by (simp add: vertices_fold_AddVertex NewGraph_def)
  with topologicalLoop_vertices [of "length (orderedVertices g)" g "[]" vs] t
  show ?thesis by (simp add: TopologicalSort_def)
qed

lemma process_checked:
  assumes rm: "buildResourceMap Map.empty (bundle_Resources (st_bundle st)) = Inr rm"
    and gs: "sortBundle (st_bundle st) = Inr (g, vs)"
    and n: "readyResources (snd (process env st)) n = Some obj"
  shows "(\<exists>res\<in>set (bundle_Resources (st_bundle st)). res_Name res = n \<and> rm n = Some res)
         \<and> n \<in> set vs
         \<and> observedReadyFrom env (calls st) (drop (length (calls st)) (calls (snd (process env st)))) obj
         \<and> checkedWithin env rm g st (calls (snd (process env st))) n obj"
proof -
  let ?st0 = "st\<lparr>readyResources := Map.empty\<rparr>"
  obtain out st1 where v: "visitVertices env rm g vs ?st0 = (out, st1)"
    by (cases "visitVertices env rm g vs ?st0")
  from visitVertices_checked [of env rm g vs ?st0] obtain new where
    i: "calls st1 = calls st @ new"
       "\<forall>n obj. readyResources st1 n = Some obj \<longrightarrow>
          n \<in> set vs \<and> observedReadyFrom env (calls st) new obj
          \<and> checkedWithin env rm g ?st0 (calls st1) n obj"
    by (auto simp: v)
  have "\<exists>extra. calls (snd (process env st)) = calls st1 @ extra
          \<and> readyResources (snd (process env st)) = readyResources st1"
  proof (cases out)
    case (Some re)
    then have "snd (process env st) = st1"
      using rm gs v by (cases re) (simp add: process_def)
    then show ?thesis by simp
  next
    case None
    from deleteRemovedResources_extends [of env st1] obtain extra where
      m: "calls (snd (deleteRemovedResources env st1)) = calls st1 @ extra"
         "readyResources (snd (deleteRemovedResources env st1)) = readyResources st1"
      by blast
    have "snd (process env st) = snd (deleteRemovedResources env st1)"
      using rm gs v None by (simp add: process_def split: prod.splits option.splits)
    with m show ?thesis by auto
  qed
  then obtain extra where
    p: "calls (snd (process env st)) = calls st1 @ extra"
       "readyResources (snd (process env st)) = readyResources st1"
    by blast
  from n p(2) i(2) have
    f: "n \<in> set vs" "observedReadyFrom env (calls st) new obj"
       "checkedWithin env rm g ?st0 (calls st1) n obj"
    by auto
  have "checkedWithin env rm g st (calls st1) n obj"
    by (rule checkedWithin_shift [OF f(3), where new = "[]"]) simp_all
  then have c: "checkedWithin env rm g st (calls (snd (process env st))) n obj"
    unfolding p(1) by (rule checkedWithin_extend)
  have o: "observedReadyFrom env (calls st) (drop (length (calls st)) (calls (snd (process env st)))) obj"
    using f(2) by (simp add: p(1) i(1) observedReadyFrom_append)
  from sortBundle_vertices [OF gs] f(1) obtain res where
    "res \<in> set (bundle_Resources (st_bundle st))" "res_Name res = n" by auto
  moreover from this buildResourceMap_Inr [OF rm] have "rm n = Some res" by auto
  ultimately show ?thesis using f(1) o c by blast
qed

text \<open>
  C6. During the traversal a resource name enters the ready set only after
  \<^verbatim>\<open>checkResource\<close>, run for the resource of that name with every edge target of its
  vertex in the ready set, returned an object, which needs the ready checker to have
  answered ready, without an error, for the object that \<^verbatim>\<open>createOrUpdate\<close> returned for
  that resource in this pass; and a vertex with an edge target that is not in the ready
  set is skipped without an error and without a call for its resource.
\<close>

theorem ready_set_invariant:
  fixes env rm g v vs st res
  defines "visited \<equiv> snd (visitVertices env rm g vs st)"
  defines "passed \<equiv> snd (process env st)"
  shows
  "(\<forall>obj r e st1. checkResource env st res = ((Some obj, r, e), st1) \<longrightarrow>
      (\<exists>spec st0. evalSpec env st res = Inr spec
           \<and> createOrUpdate env st spec = (Inr obj, st0)
           \<and> fst (IsReady env (calls st0) obj) \<and> snd (snd (IsReady env (calls st0) obj)) = None
           \<and> st1 = st0\<lparr>calls := calls st0 @ [EvIsReady obj]\<rparr>))
   \<and> (\<forall>n obj. readyResources visited n = Some obj \<longrightarrow>
        readyResources st n = Some obj
        \<or> (n \<in> set vs
            \<and> observedReadyFrom env (calls st) (drop (length (calls st)) (calls visited)) obj
            \<and> checkedWithin env rm g st (calls visited) n obj))
   \<and> (\<forall>n obj. readyResources passed n = Some obj \<longrightarrow>
        readyResources st n = Some obj
        \<or> observedReadyFrom env (calls st) (drop (length (calls st)) (calls passed)) obj)
   \<and> (buildResourceMap Map.empty (bundle_Resources (st_bundle st)) = Inr rm
        \<and> sortBundle (st_bundle st) = Inr (g, vs) \<longrightarrow>
        (\<forall>n obj. readyResources passed n = Some obj \<longrightarrow>
           (\<exists>res\<in>set (bundle_Resources (st_bundle st)). res_Name res = n \<and> rm n = Some res)
           \<and> n \<in> set vs
           \<and> observedReadyFrom env (calls st) (drop (length (calls st)) (calls passed)) obj
           \<and> checkedWithin env rm g st (calls passed) n obj))
   \<and> ((\<exists>dependency\<in>set (Edges g v). readyResources st dependency = None) \<longrightarrow>
        visitVertices env rm g (v # vs) st = visitVertices env rm g vs st)"
proof (intro conjI)
  show "\<forall>obj r e st1. checkResource env st res = ((Some obj, r, e), st1) \<longrightarrow>
      (\<exists>spec st0. evalSpec env st res = Inr spec
           \<and> createOrUpdate env st spec = (Inr obj, st0)
           \<and> fst (IsReady env (calls st0) obj) \<and> snd (snd (IsReady env (calls st0) obj)) = None
           \<and> st1 = st0\<lparr>calls := calls st0 @ [EvIsReady obj]\<rparr>)"
    using checkResource_ready by blast
  from visitVertices_checked [of env rm g vs st] obtain new where
    "calls visited = calls st @ new"
    "\<forall>n obj. readyResources visited n = Some obj \<longrightarrow>
        readyResources st n = Some obj
        \<or> (n \<in> set vs \<and> observedReadyFrom env (calls st) new obj
            \<and> checkedWithin env rm g st (calls visited) n obj)"
    unfolding visited_def by blast
  then show "\<forall>n obj. readyResources visited n = Some obj \<longrightarrow>
        readyResources st n = Some obj
        \<or> (n \<in> set vs
            \<and> observedReadyFrom env (calls st) (drop (length (calls st)) (calls visited)) obj
            \<and> checkedWithin env rm g st (calls visited) n obj)"
    by simp
  from process_ready [of env st] obtain new where
    "calls passed = calls st @ new"
    "\<forall>n obj. readyResources passed n = Some obj \<longrightarrow>
        readyResources st n = Some obj \<or> observedReadyFrom env (calls st) new obj"
    unfolding passed_def by blast
  then show "\<forall>n obj. readyResources passed n = Some obj \<longrightarrow>
        readyResources st n = Some obj
        \<or> observedReadyFrom env (calls st) (drop (length (calls st)) (calls passed)) obj"
    by simp
  show "buildResourceMap Map.empty (bundle_Resources (st_bundle st)) = Inr rm
        \<and> sortBundle (st_bundle st) = Inr (g, vs) \<longrightarrow>
        (\<forall>n obj. readyResources passed n = Some obj \<longrightarrow>
           (\<exists>res\<in>set (bundle_Resources (st_bundle st)). res_Name res = n \<and> rm n = Some res)
           \<and> n \<in> set vs
           \<and> observedReadyFrom env (calls st) (drop (length (calls st)) (calls passed)) obj
           \<and> checkedWithin env rm g st (calls passed) n obj)"
    unfolding passed_def using process_checked by blast
  show "(\<exists>dependency\<in>set (Edges g v). readyResources st dependency = None) \<longrightarrow>
        visitVertices env rm g (v # vs) st = visitVertices env rm g vs st"
    by (auto simp: list_all_iff)
qed

lemmas process_example_defs = process_def sortBundle_def AddVertex_def AddEdge_def NewGraph_def
  TopologicalSort_def Edges_def checkResource_def evalSpec_def createOrUpdate_def
  createResource_def updateResource_def deleteRemovedResources_def mergeLabels_def
  bundleControllerRef_def dependencyRef_def GetAPIVersion_def GetKind_def
  okEnv_def exampleTask_def exampleBundle_def exampleObject_def exampleResource_def Let_def

theorem ready_set_invariant_witness:
  "sortBundle (exampleBundle chainResources) = Inr (chainGraph, [''a'', ''b''])
   \<and> buildResourceMap Map.empty chainResources = Inr chainMap
   \<and> readyResources (snd (process okEnv (exampleTask chainResources))) ''a''
       = Some (createdObject ''a'' [])
   \<and> observedReadyFrom okEnv [] (calls (snd (process okEnv (exampleTask chainResources))))
        (createdObject ''a'' [])
   \<and> checkedWithin okEnv chainMap chainGraph (exampleTask chainResources)
        (calls (snd (process okEnv (exampleTask chainResources)))) ''a'' (createdObject ''a'' [])
   \<and> readyResources (snd (process notReadyEnv (exampleTask chainResources))) ''a'' = None
   \<and> visitVertices notReadyEnv Map.empty chainGraph [''b''] (exampleTask chainResources)
       = (None, exampleTask chainResources)
   \<and> calls (snd (process notReadyEnv (exampleTask chainResources)))
       = [EvForGVK \<lparr>Group = [], Version = ''v1'', Kind = ''ConfigMap''\<rparr> ''ns'',
          EvGet \<lparr>Group = [], Version = ''v1'', Kind = ''ConfigMap''\<rparr> ''ns'' ''a'',
          EvCreate \<lparr>Group = [], Version = ''v1'', Kind = ''ConfigMap''\<rparr> ''ns''
            (createdObject ''a'' []),
          EvIsReady (createdObject ''a'' []),
          EvGetObjectsForBundle ''ns'' ''b'']"
proof -
  have sort: "sortBundle (exampleBundle chainResources) = Inr (chainGraph, [''a'', ''b''])"
    by (simp add: process_example_defs chainResources_def chainGraph_def fun_upd_def)
  have rm: "buildResourceMap Map.empty chainResources = Inr chainMap"
    by (simp add: chainResources_def chainMap_def exampleResource_def)
  have ok: "readyResources (snd (process okEnv (exampleTask chainResources))) ''a''
       = Some (createdObject ''a'' [])"
    by (simp add: process_example_defs chainResources_def createdObject_def)
  have nr: "calls (snd (process notReadyEnv (exampleTask chainResources)))
       = [EvForGVK \<lparr>Group = [], Version = ''v1'', Kind = ''ConfigMap''\<rparr> ''ns'',
          EvGet \<lparr>Group = [], Version = ''v1'', Kind = ''ConfigMap''\<rparr> ''ns'' ''a'',
          EvCreate \<lparr>Group = [], Version = ''v1'', Kind = ''ConfigMap''\<rparr> ''ns''
            (createdObject ''a'' []),
          EvIsReady (createdObject ''a'' []),
          EvGetObjectsForBundle ''ns'' ''b'']"
    by (simp add: process_example_defs chainResources_def createdObject_def notReadyEnv_def)
  have nr2: "readyResources (snd (process notReadyEnv (exampleTask chainResources))) ''a'' = None"
    by (simp add: process_example_defs chainResources_def createdObject_def notReadyEnv_def)
  have dep: "\<exists>dependency\<in>set (Edges chainGraph ''b'').
               readyResources (exampleTask chainResources) dependency = None"
    by (simp add: Edges_def chainGraph_def exampleTask_def)
  have b: "bundle_Resources (st_bundle (exampleTask chainResources)) = chainResources"
    "st_bundle (exampleTask chainResources) = exampleBundle chainResources"
    "calls (exampleTask chainResources) = []"
    by (simp_all add: exampleTask_def exampleBundle_def)
  note inv = ready_set_invariant [where env = okEnv and st = "exampleTask chainResources"
      and rm = chainMap and g = chainGraph and v = "''b''" and vs = "[''a'', ''b'']"
      and res = "exampleResource ''a'' []"]
  note skip = ready_set_invariant [where env = notReadyEnv and st = "exampleTask chainResources"
      and rm = Map.empty and g = chainGraph and v = "''b''" and vs = "[]"
      and res = "exampleResource ''a'' []"]
  have obs: "observedReadyFrom okEnv [] (calls (snd (process okEnv (exampleTask chainResources))))
        (createdObject ''a'' [])
      \<and> checkedWithin okEnv chainMap chainGraph (exampleTask chainResources)
        (calls (snd (process okEnv (exampleTask chainResources)))) ''a'' (createdObject ''a'' [])"
  proof -
    note pass = inv [THEN conjunct2, THEN conjunct2, THEN conjunct2, THEN conjunct1]
    have "buildResourceMap Map.empty (bundle_Resources (st_bundle (exampleTask chainResources)))
            = Inr chainMap
          \<and> sortBundle (st_bundle (exampleTask chainResources)) = Inr (chainGraph, [''a'', ''b''])"
      using sort rm by (simp add: b exampleBundle_def)
    with pass ok show ?thesis by (simp add: b(3))
  qed
  have sk: "visitVertices notReadyEnv Map.empty chainGraph [''b''] (exampleTask chainResources)
       = (None, exampleTask chainResources)"
    using skip [THEN conjunct2, THEN conjunct2, THEN conjunct2, THEN conjunct2] dep by simp
  show ?thesis using sort rm ok obs nr2 sk nr by simp
qed

end
